theory Spec2Isabelle
  imports Main "HOL-Library.Word" "HOL-Library.AList"
begin

unbundle bit_operations_syntax

section \<open>Event kinds and the tag codec\<close>

text \<open>
  Session identifiers and completion-queue tags are the \<open>uint64_t\<close> of
  \<open>GreetingServer::run\<close>, \<open>removeSession\<close> and \<open>getSession\<close>.
\<close>

type_synonym session_id = "64 word"
type_synonym tag = "64 word"

text \<open>
  \<open>GrpcEvent\<close> is an unscoped C++ enumeration: an object of the type holds an
  integer, which need not be one of the enumerators. It is modelled by that integer.
\<close>

type_synonym GrpcEvent = nat

definition GRPC_EVENT_CONNECTED :: GrpcEvent where
  \<comment> \<open>Modelled from the spec: type.h is absent; the four event kinds are numbered in the
      order type.cc lists them, so that they fill the two low bits of a tag.\<close>
  "GRPC_EVENT_CONNECTED = 0"

definition GRPC_EVENT_READ_DONE :: GrpcEvent where
  \<comment> \<open>Modelled from the spec: type.h is absent; second event kind.\<close>
  "GRPC_EVENT_READ_DONE = 1"

definition GRPC_EVENT_WRITE_DONE :: GrpcEvent where
  \<comment> \<open>Modelled from the spec: type.h is absent; third event kind.\<close>
  "GRPC_EVENT_WRITE_DONE = 2"

definition GRPC_EVENT_FINISHED :: GrpcEvent where
  \<comment> \<open>Modelled from the spec: type.h is absent; fourth event kind.\<close>
  "GRPC_EVENT_FINISHED = 3"

definition GRPC_EVENT_BIT_LENGTH :: nat where
  \<comment> \<open>Modelled from the spec: type.h is absent; the number of bits needed to represent
      the event-kind enumeration (four kinds).\<close>
  "GRPC_EVENT_BIT_LENGTH = 2"

definition GRPC_EVENT_MASK :: tag where
  \<comment> \<open>Modelled from the spec: type.h is absent; the low GRPC_EVENT_BIT_LENGTH bits.\<close>
  "GRPC_EVENT_MASK = 3"

text \<open>
  The decoding both dispatch loops of \<open>GreetingServer::run\<close> perform on the tag that
  \<open>Next\<close> hands back:
  \<^verbatim>\<open>auto event = static_cast<GrpcEvent>(session_id & GRPC_EVENT_MASK);\<close>
  \<^verbatim>\<open>session_id = session_id >> GRPC_EVENT_BIT_LENGTH;\<close>
\<close>

definition decode_event :: "tag \<Rightarrow> GrpcEvent" where
  "decode_event t = unat (t AND GRPC_EVENT_MASK)"

definition decode_session_id :: "tag \<Rightarrow> session_id" where
  "decode_session_id t = drop_bit GRPC_EVENT_BIT_LENGTH t"

definition decode :: "tag \<Rightarrow> session_id \<times> GrpcEvent" where
  "decode t = (decode_session_id t, decode_event t)"

definition encode :: "session_id \<Rightarrow> GrpcEvent \<Rightarrow> tag" where
  \<comment> \<open>Modelled from the spec: the session class that builds the tags is absent. The
      event kind is packed into the low GRPC_EVENT_BIT_LENGTH bits and the session
      identifier into the remaining high bits of the 64-bit tag.\<close>
  "encode sid kind = push_bit GRPC_EVENT_BIT_LENGTH sid OR word_of_nat kind"

section \<open>Printing an event kind\<close>

text \<open>
  \<open>operator<<(std::ostream&, GrpcEvent)\<close> of type.cc. The stream is the text written to
  it so far. The switch has no default case: for a value that is none of the four
  enumerators no return statement is reached, which is the result \<open>None\<close>.
\<close>

definition print_GrpcEvent :: "string \<Rightarrow> GrpcEvent \<Rightarrow> string option" where
  "print_GrpcEvent os event =
     (if event = GRPC_EVENT_CONNECTED then Some (os @ ''GRPC_EVENT_CONNECTED'')
      else if event = GRPC_EVENT_READ_DONE then Some (os @ ''GRPC_EVENT_READ_DONE'')
      else if event = GRPC_EVENT_WRITE_DONE then Some (os @ ''GRPC_EVENT_WRITE_DONE'')
      else if event = GRPC_EVENT_FINISHED then Some (os @ ''GRPC_EVENT_FINISHED'')
      else None)"

section \<open>Sessions, the registry and the server\<close>

text \<open>
  Modelled from the spec: the header that declares \<open>GrpcSessionStatus\<close> is absent. The
  status of a session is one of \<open>WAIT_CONNECT\<close>, \<open>CONNECTED\<close> and \<open>CLOSED\<close>; the
  server only ever compares it with \<open>WAIT_CONNECT\<close>.
\<close>

datatype GrpcSessionStatus = WAIT_CONNECT | CONNECTED | CLOSED

text \<open>
  The two members of a session that the server reads, \<open>session_id_\<close> and \<open>status_\<close>.
  Isabelle keeps names that end in an underscore for itself, so the members of both
  classes are written without it.
\<close>

record GreetingSession =
  own_session_id :: session_id
  status :: GrpcSessionStatus

definition GreetingSession_new :: "session_id \<Rightarrow> GreetingSession" where
  \<comment> \<open>Modelled from the spec: the constructor of the session class is absent. A session
      is created with the identifier it is given and waits for its connection.\<close>
  "GreetingSession_new sid = \<lparr>own_session_id = sid, status = WAIT_CONNECT\<rparr>"

text \<open>
  What the server does to its collaborators is recorded, in program order, as a list
  of calls: taking and releasing \<open>mutex_sessions_\<close> and the mutex of a session, the
  construction of a session, \<open>process\<close>, \<open>reply\<close> and \<open>TryCancel\<close> on the session
  with the given identifier, the write \<open>running_ = false\<close>, and the \<open>Shutdown\<close> of the
  gRPC server and of the two completion queues. Log statements are left out.
\<close>

datatype call =
    LockSessions
  | UnlockSessions
  | LockSession session_id
  | UnlockSession session_id
  | NewSession session_id
  | Process session_id GrpcEvent
  | Reply session_id
  | TryCancel session_id
  | RunningCleared
  | ServerShutdown
  | CqCallShutdown
  | CqNotificationShutdown

text \<open>
  The members of \<open>GreetingServer\<close> the code under study touches. \<open>sessions_\<close> is the map
  from identifier to session, kept as an association list (the order of the entries
  is the order a range-for visits them in); \<open>calls\<close> is the record of calls above.
\<close>

record GreetingServer =
  running :: bool
  session_id_allocator :: session_id
  sessions :: "(session_id \<times> GreetingSession) list"
  calls :: "call list"

definition record_calls :: "call list \<Rightarrow> GreetingServer \<Rightarrow> GreetingServer" where
  "record_calls cs srv = srv\<lparr>calls := calls srv @ cs\<rparr>"

text \<open>A map has one entry for each key.\<close>

definition sessions_wf :: "GreetingServer \<Rightarrow> bool" where
  "sessions_wf srv = distinct (map fst (sessions srv))"

text \<open>
  \<open>GreetingServer::addSession\<close>. \<open>init_ok\<close> is what \<open>new_session->init()\<close> returns; the
  result is the new session, or \<open>None\<close> for \<open>nullptr\<close>. The post-increment wraps
  around at \<open>2 ^ 64\<close>, as \<open>uint64_t\<close> does.
\<close>

definition addSession :: "bool \<Rightarrow> GreetingServer \<Rightarrow> GreetingSession option \<times> GreetingServer" where
  "addSession init_ok srv =
     (let new_session_id = session_id_allocator srv;
          srv1 = srv\<lparr>session_id_allocator := session_id_allocator srv + 1\<rparr>;
          new_session = GreetingSession_new new_session_id;
          srv2 = record_calls [NewSession new_session_id] srv1
      in if \<not> init_ok then (None, srv2)
         else
           let srv3 = record_calls [LockSessions] srv2;
               srv4 = srv3\<lparr>sessions := AList.update new_session_id new_session (sessions srv3)\<rparr>
           in (Some new_session, record_calls [UnlockSessions] srv4))"

text \<open>\<open>GreetingServer::removeSession\<close>: \<open>sessions_.erase(sessionId)\<close> under the mutex.\<close>

definition removeSession :: "session_id \<Rightarrow> GreetingServer \<Rightarrow> GreetingServer" where
  "removeSession sessionId srv =
     (let srv1 = record_calls [LockSessions] srv;
          srv2 = srv1\<lparr>sessions := AList.delete sessionId (sessions srv1)\<rparr>
      in record_calls [UnlockSessions] srv2)"

text \<open>\<open>GreetingServer::getSession\<close>: the entry found, or \<open>None\<close> for \<open>nullptr\<close>.\<close>

definition getSession :: "session_id \<Rightarrow> GreetingServer \<Rightarrow> GreetingSession option \<times> GreetingServer" where
  "getSession sessionId srv =
     (let srv1 = record_calls [LockSessions] srv
      in (map_of (sessions srv1) sessionId, record_calls [UnlockSessions] srv1))"

section \<open>The dispatch loops\<close>

text \<open>
  The session class is absent, so what \<open>process\<close> and \<open>reply\<close> do to the session they
  are called on is a parameter: a function from the session before to the session
  after. The session is shared with the registry, so its entry there changes with it.
  Calls that a session makes back into the server (\<open>addSession\<close>) are steps of their own
  in a schedule, below.
\<close>

type_synonym process_fn = "GrpcEvent \<Rightarrow> GreetingSession \<Rightarrow> GreetingSession"
type_synonym reply_fn = "GreetingSession \<Rightarrow> GreetingSession"

definition locked_process ::
  "process_fn \<Rightarrow> session_id \<Rightarrow> GrpcEvent \<Rightarrow> GreetingSession \<Rightarrow> GreetingServer \<Rightarrow> GreetingServer" where
  "locked_process process sid event session srv =
     (let srv1 = record_calls [LockSession sid] srv;
          srv2 = record_calls [Process sid event]
                   (srv1\<lparr>sessions := AList.update sid (process event session) (sessions srv1)\<rparr>)
      in record_calls [UnlockSession sid] srv2)"

text \<open>
  The body of the \<open>while\<close> loop of the thread on \<open>completion_queue_call_\<close>, for one
  \<open>(tag, ok)\<close> that \<open>Next\<close> delivered.
\<close>

definition completion_queue_call_body ::
  "process_fn \<Rightarrow> tag \<times> bool \<Rightarrow> GreetingServer \<Rightarrow> GreetingServer" where
  "completion_queue_call_body process nxt srv =
     (case nxt of (t, ok) \<Rightarrow>
        let event = decode_event t;
            session_id = decode_session_id t
        in if event = GRPC_EVENT_FINISHED then removeSession session_id srv
           else
             (case getSession session_id srv of
                (None, srv1) \<Rightarrow> srv1
              | (Some session, srv1) \<Rightarrow>
                  if \<not> ok then removeSession session_id srv1
                  else locked_process process session_id event session srv1))"

text \<open>The body of the loop of the thread on \<open>completion_queue_notification_\<close>.\<close>

definition completion_queue_notification_body ::
  "process_fn \<Rightarrow> tag \<times> bool \<Rightarrow> GreetingServer \<Rightarrow> GreetingServer" where
  "completion_queue_notification_body process nxt srv =
     (case nxt of (t, ok) \<Rightarrow>
        let event = decode_event t;
            session_id = decode_session_id t
        in if event = GRPC_EVENT_FINISHED then removeSession session_id srv
           else
             (case getSession session_id srv of
                (None, srv1) \<Rightarrow> srv1
              | (Some session, srv1) \<Rightarrow>
                  if \<not> ok then removeSession session_id srv1
                  else locked_process process session_id event session srv1))"

text \<open>
  The two threads, run on the events their queue delivers before it reports that it
  is shut down. The first one spawns the first session before it enters its loop.
\<close>

fun completion_queue_call_loop ::
  "process_fn \<Rightarrow> (tag \<times> bool) list \<Rightarrow> GreetingServer \<Rightarrow> GreetingServer" where
  "completion_queue_call_loop process [] srv = srv"
| "completion_queue_call_loop process (nxt # rest) srv =
     completion_queue_call_loop process rest (completion_queue_call_body process nxt srv)"

definition thread_completion_queue_call ::
  "process_fn \<Rightarrow> bool \<Rightarrow> (tag \<times> bool) list \<Rightarrow> GreetingServer \<Rightarrow> GreetingServer" where
  "thread_completion_queue_call process init_ok evs srv =
     completion_queue_call_loop process evs (snd (addSession init_ok srv))"

fun thread_completion_queue_notification ::
  "process_fn \<Rightarrow> (tag \<times> bool) list \<Rightarrow> GreetingServer \<Rightarrow> GreetingServer" where
  "thread_completion_queue_notification process [] srv = srv"
| "thread_completion_queue_notification process (nxt # rest) srv =
     thread_completion_queue_notification process rest
       (completion_queue_notification_body process nxt srv)"

section \<open>The broadcast loop\<close>

text \<open>
  The range-for of the publishing thread over \<open>sessions_\<close>: every entry's mutex is
  taken, \<open>reply\<close> is called on the session, the mutex is released.
\<close>

fun reply_sessions ::
  "reply_fn \<Rightarrow> (session_id \<times> GreetingSession) list \<Rightarrow> call list \<times> (session_id \<times> GreetingSession) list" where
  "reply_sessions reply [] = ([], [])"
| "reply_sessions reply ((k, s) # rest) =
     (case reply_sessions reply rest of
        (cs, rest') \<Rightarrow> ([LockSession k, Reply k, UnlockSession k] @ cs, (k, reply s) # rest'))"

definition publish_greeting_sweep :: "reply_fn \<Rightarrow> GreetingServer \<Rightarrow> GreetingServer" where
  "publish_greeting_sweep reply srv =
     (let srv1 = record_calls [LockSessions] srv
      in case reply_sessions reply (sessions srv1) of
           (cs, ss) \<Rightarrow> record_calls [UnlockSessions] (record_calls cs (srv1\<lparr>sessions := ss\<rparr>)))"

section \<open>Shutdown\<close>

text \<open>The range-for of \<open>GreetingServer::stop\<close> over \<open>sessions_\<close>.\<close>

fun cancel_sessions :: "(session_id \<times> GreetingSession) list \<Rightarrow> call list" where
  "cancel_sessions [] = []"
| "cancel_sessions ((k, s) # rest) =
     [LockSession k] @ (if status s \<noteq> WAIT_CONNECT then [TryCancel k] else [])
       @ [UnlockSession k] @ cancel_sessions rest"

definition stop :: "GreetingServer \<Rightarrow> GreetingServer" where
  "stop srv =
     (if \<not> running srv then srv
      else
        let srv1 = record_calls [RunningCleared] (srv\<lparr>running := False\<rparr>);
            srv2 = record_calls [LockSessions] srv1;
            srv3 = record_calls (cancel_sessions (sessions srv2)) srv2;
            srv4 = record_calls [UnlockSessions] srv3;
            srv5 = record_calls [ServerShutdown] srv4;
            srv6 = record_calls [CqCallShutdown] srv5
        in record_calls [CqNotificationShutdown] srv6)"

text \<open>
  The three stretches of \<open>stop\<close> between which the other threads can run: the write
  to the flag, the sweep under \<open>mutex_sessions_\<close>, and the three \<open>Shutdown\<close> calls.
\<close>

definition stop_clear :: "GreetingServer \<Rightarrow> GreetingServer" where
  "stop_clear srv = record_calls [RunningCleared] (srv\<lparr>running := False\<rparr>)"

definition stop_cancel :: "GreetingServer \<Rightarrow> GreetingServer" where
  "stop_cancel srv =
     (let srv2 = record_calls [LockSessions] srv;
          srv3 = record_calls (cancel_sessions (sessions srv2)) srv2
      in record_calls [UnlockSessions] srv3)"

definition stop_shutdown :: "GreetingServer \<Rightarrow> GreetingServer" where
  "stop_shutdown srv =
     (let srv5 = record_calls [ServerShutdown] srv;
          srv6 = record_calls [CqCallShutdown] srv5
      in record_calls [CqNotificationShutdown] srv6)"

section \<open>The threads, step by step\<close>

text \<open>
  The threads of \<open>run\<close>, a caller of \<open>stop\<close> and the callers of \<open>addSession\<close> run at the
  same time. Each of them holds a mutex only for a stretch of its code, and between
  two stretches the others can run. The stretches are:
  \<^item> a dispatch loop, from \<open>Next\<close> to the end of \<open>removeSession\<close> or \<open>getSession\<close>
    (the lookup), and from there to the end of the turn (the removal of a not-ok
    session, or \<open>process\<close> under the session's mutex);
  \<^item> \<open>addSession\<close>, up to the return of \<open>init\<close>, and the insert under the registry
    mutex;
  \<^item> the publishing thread, the test of \<open>running_\<close> before the sleep, and the sweep
    after it;
  \<^item> \<open>stop\<close>, in the three stretches above.
\<close>

text \<open>
  What a dispatch loop holds between its lookup and the end of its turn: the decoded
  identifier and event, \<open>ok\<close>, and the session it found. \<open>turn_registered\<close> says
  whether that session is still the entry of the registry under its identifier: it is
  after the lookup, and no longer once the identifier was erased or assigned anew.
\<close>

record turn =
  turn_session_id :: session_id
  turn_event :: GrpcEvent
  turn_ok :: bool
  turn_registered :: bool

text \<open>The loop body up to the lookup: the code from \<open>Next\<close> to the test of \<open>session\<close>.\<close>

definition dispatch_lookup :: "tag \<times> bool \<Rightarrow> GreetingServer \<Rightarrow> turn option \<times> GreetingServer" where
  "dispatch_lookup nxt srv =
     (case nxt of (t, ok) \<Rightarrow>
        let event = decode_event t;
            session_id = decode_session_id t
        in if event = GRPC_EVENT_FINISHED then (None, removeSession session_id srv)
           else
             (case getSession session_id srv of
                (None, srv1) \<Rightarrow> (None, srv1)
              | (Some session, srv1) \<Rightarrow>
                  (Some \<lparr>turn_session_id = session_id, turn_event = event, turn_ok = ok,
                         turn_registered = True\<rparr>, srv1)))"

text \<open>
  The rest of the loop body: the test of \<open>ok\<close>, and \<open>process\<close> on the session the loop
  holds, whether or not the registry still has it. The session's state is the
  registry's entry while it is registered; the state of a session that is no longer
  registered is seen by nobody.
\<close>

definition dispatch_finish :: "process_fn \<Rightarrow> turn \<Rightarrow> GreetingServer \<Rightarrow> GreetingServer" where
  "dispatch_finish process p srv =
     (if \<not> turn_ok p then removeSession (turn_session_id p) srv
      else
        (case (if turn_registered p then map_of (sessions srv) (turn_session_id p) else None) of
           Some session \<Rightarrow>
             locked_process process (turn_session_id p) (turn_event p) session srv
         | None \<Rightarrow>
             record_calls [LockSession (turn_session_id p),
                           Process (turn_session_id p) (turn_event p),
                           UnlockSession (turn_session_id p)] srv))"

text \<open>
  \<open>addSession\<close> up to the return of \<open>init\<close>: the identifier and the session to insert,
  or \<open>None\<close> when \<open>init\<close> failed and \<open>addSession\<close> returns; and the insert.
\<close>

definition addSession_begin ::
  "bool \<Rightarrow> GreetingServer \<Rightarrow> (session_id \<times> GreetingSession) option \<times> GreetingServer" where
  "addSession_begin init_ok srv =
     (let new_session_id = session_id_allocator srv;
          srv1 = srv\<lparr>session_id_allocator := session_id_allocator srv + 1\<rparr>;
          new_session = GreetingSession_new new_session_id;
          srv2 = record_calls [NewSession new_session_id] srv1
      in if \<not> init_ok then (None, srv2) else (Some (new_session_id, new_session), srv2))"

definition addSession_insert :: "session_id \<times> GreetingSession \<Rightarrow> GreetingServer \<Rightarrow> GreetingServer" where
  "addSession_insert ins srv =
     (case ins of (new_session_id, new_session) \<Rightarrow>
        let srv3 = record_calls [LockSessions] srv;
            srv4 = srv3\<lparr>sessions := AList.update new_session_id new_session (sessions srv3)\<rparr>
        in record_calls [UnlockSessions] srv4)"

text \<open>
  The server together with where each thread is: the turn a dispatch loop is in the
  middle of, the inserts that callers of \<open>addSession\<close> have still to make, whether the
  publishing thread has passed its test and owes a sweep, and how far a caller of
  \<open>stop\<close> has come.
\<close>

datatype stop_point = NotStopping | FlagCleared | SessionsCancelled

record machine =
  server :: GreetingServer
  call_turn :: "turn option"
  notification_turn :: "turn option"
  inserts :: "(session_id \<times> GreetingSession) list"
  sweep_due :: bool
  stop_at :: stop_point

definition detach :: "session_id \<Rightarrow> turn option \<Rightarrow> turn option" where
  "detach k slot =
     (case slot of
        None \<Rightarrow> None
      | Some p \<Rightarrow> Some (if turn_session_id p = k then p\<lparr>turn_registered := False\<rparr> else p))"

definition detach_turns :: "session_id \<Rightarrow> machine \<Rightarrow> machine" where
  "detach_turns k m =
     m\<lparr>call_turn := detach k (call_turn m),
       notification_turn := detach k (notification_turn m)\<rparr>"

text \<open>
  A schedule is the list of the stretches in the order they happen. A step names the
  thread and the stretch; a step whose thread is not at that point does nothing.
  \<open>AddSessionInsert n\<close> is the insert of the \<open>n\<close>-th caller that is waiting to insert;
  \<open>RemoveSession\<close> is a call of \<open>removeSession\<close> from elsewhere.
\<close>

datatype step =
    CallLookup tag bool
  | CallFinish
  | NotificationLookup tag bool
  | NotificationFinish
  | AddSessionBegin bool
  | AddSessionInsert nat
  | RemoveSession session_id
  | PublishTest
  | PublishSweep
  | StopClear
  | StopCancel
  | StopShutdown

fun exec_step :: "process_fn \<Rightarrow> reply_fn \<Rightarrow> step \<Rightarrow> machine \<Rightarrow> machine" where
  "exec_step process reply (CallLookup t ok) m =
     (case call_turn m of
        Some p \<Rightarrow> m
      | None \<Rightarrow>
          (case dispatch_lookup (t, ok) (server m) of
             (slot, srv') \<Rightarrow>
               let m' = m\<lparr>server := srv', call_turn := slot\<rparr>
               in if decode_event t = GRPC_EVENT_FINISHED
                  then detach_turns (decode_session_id t) m' else m'))"
| "exec_step process reply CallFinish m =
     (case call_turn m of
        None \<Rightarrow> m
      | Some p \<Rightarrow>
          let m' = m\<lparr>server := dispatch_finish process p (server m), call_turn := None\<rparr>
          in if \<not> turn_ok p then detach_turns (turn_session_id p) m' else m')"
| "exec_step process reply (NotificationLookup t ok) m =
     (case notification_turn m of
        Some p \<Rightarrow> m
      | None \<Rightarrow>
          (case dispatch_lookup (t, ok) (server m) of
             (slot, srv') \<Rightarrow>
               let m' = m\<lparr>server := srv', notification_turn := slot\<rparr>
               in if decode_event t = GRPC_EVENT_FINISHED
                  then detach_turns (decode_session_id t) m' else m'))"
| "exec_step process reply NotificationFinish m =
     (case notification_turn m of
        None \<Rightarrow> m
      | Some p \<Rightarrow>
          let m' = m\<lparr>server := dispatch_finish process p (server m),
                      notification_turn := None\<rparr>
          in if \<not> turn_ok p then detach_turns (turn_session_id p) m' else m')"
| "exec_step process reply (AddSessionBegin init_ok) m =
     (case addSession_begin init_ok (server m) of
        (None, srv') \<Rightarrow> m\<lparr>server := srv'\<rparr>
      | (Some ins, srv') \<Rightarrow> m\<lparr>server := srv', inserts := inserts m @ [ins]\<rparr>)"
| "exec_step process reply (AddSessionInsert n) m =
     (if n < length (inserts m)
      then detach_turns (fst (inserts m ! n))
             (m\<lparr>server := addSession_insert (inserts m ! n) (server m),
                inserts := take n (inserts m) @ drop (Suc n) (inserts m)\<rparr>)
      else m)"
| "exec_step process reply (RemoveSession sid) m =
     detach_turns sid (m\<lparr>server := removeSession sid (server m)\<rparr>)"
| "exec_step process reply PublishTest m =
     (if sweep_due m then m else m\<lparr>sweep_due := running (server m)\<rparr>)"
| "exec_step process reply PublishSweep m =
     (if sweep_due m
      then m\<lparr>server := publish_greeting_sweep reply (server m), sweep_due := False\<rparr>
      else m)"
| "exec_step process reply StopClear m =
     (if stop_at m = NotStopping \<and> running (server m)
      then m\<lparr>server := stop_clear (server m), stop_at := FlagCleared\<rparr> else m)"
| "exec_step process reply StopCancel m =
     (if stop_at m = FlagCleared
      then m\<lparr>server := stop_cancel (server m), stop_at := SessionsCancelled\<rparr> else m)"
| "exec_step process reply StopShutdown m =
     (if stop_at m = SessionsCancelled
      then m\<lparr>server := stop_shutdown (server m), stop_at := NotStopping\<rparr> else m)"

fun exec :: "process_fn \<Rightarrow> reply_fn \<Rightarrow> step list \<Rightarrow> machine \<Rightarrow> machine" where
  "exec process reply [] m = m"
| "exec process reply (st # rest) m = exec process reply rest (exec_step process reply st m)"

text \<open>The calls made between an earlier state of the server and a later one.\<close>

definition emitted :: "GreetingServer \<Rightarrow> GreetingServer \<Rightarrow> call list" where
  "emitted srv srv' = drop (length (calls srv)) (calls srv')"

text \<open>
  The identifiers of the sessions constructed in a list of calls, and the events
  with which \<open>process\<close> is called on the session with a given identifier.
\<close>

fun new_session_ids :: "call list \<Rightarrow> session_id list" where
  "new_session_ids [] = []"
| "new_session_ids (NewSession k # cs) = k # new_session_ids cs"
| "new_session_ids (c # cs) = new_session_ids cs"

fun process_events :: "session_id \<Rightarrow> call list \<Rightarrow> GrpcEvent list" where
  "process_events S [] = []"
| "process_events S (Process k e # cs) =
     (if k = S then e # process_events S cs else process_events S cs)"
| "process_events S (c # cs) = process_events S cs"

fun is_AddSessionBegin :: "step \<Rightarrow> bool" where
  "is_AddSessionBegin (AddSessionBegin b) = True"
| "is_AddSessionBegin st = False"

text \<open>
  The allocator does not wrap around over a schedule: the identifiers its
  \<open>addSession\<close> calls hand out stay below \<open>2 ^ 64\<close>.
\<close>

definition no_wrap :: "step list \<Rightarrow> GreetingServer \<Rightarrow> bool" where
  "no_wrap sched srv \<longleftrightarrow>
     unat (session_id_allocator srv) + length (filter is_AddSessionBegin sched) \<le> 2 ^ 64"

text \<open>The number of dispatch loops that are in the middle of a turn on a session.\<close>

definition holds :: "session_id \<Rightarrow> turn option \<Rightarrow> nat" where
  "holds S slot =
     (case slot of None \<Rightarrow> 0 | Some p \<Rightarrow> if turn_session_id p = S then 1 else 0)"

definition turns_on :: "session_id \<Rightarrow> machine \<Rightarrow> nat" where
  "turns_on S m = holds S (call_turn m) + holds S (notification_turn m)"

text \<open>
  The step that ends the handling of a FINISHED event or of a not-ok completion for
  the session \<open>S\<close>: the lookup of a FINISHED event (it removes \<open>S\<close>), the lookup of a
  not-ok completion that does not find \<open>S\<close>, or the rest of the turn on a not-ok
  completion that found \<open>S\<close> (it removes \<open>S\<close>).
\<close>

definition lookup_ends_for :: "session_id \<Rightarrow> GreetingServer \<Rightarrow> tag \<Rightarrow> bool \<Rightarrow> bool" where
  "lookup_ends_for S srv t ok \<longleftrightarrow>
     decode_session_id t = S \<and>
     (decode_event t = GRPC_EVENT_FINISHED \<or> (\<not> ok \<and> map_of (sessions srv) S = None))"

definition finish_ends_for :: "session_id \<Rightarrow> turn option \<Rightarrow> bool" where
  "finish_ends_for S slot =
     (case slot of None \<Rightarrow> False | Some p \<Rightarrow> turn_session_id p = S \<and> \<not> turn_ok p)"

fun ends_turn_for :: "session_id \<Rightarrow> machine \<Rightarrow> step \<Rightarrow> bool" where
  "ends_turn_for S m (CallLookup t ok) =
     (call_turn m = None \<and> lookup_ends_for S (server m) t ok)"
| "ends_turn_for S m CallFinish = finish_ends_for S (call_turn m)"
| "ends_turn_for S m (NotificationLookup t ok) =
     (notification_turn m = None \<and> lookup_ends_for S (server m) t ok)"
| "ends_turn_for S m NotificationFinish = finish_ends_for S (notification_turn m)"
| "ends_turn_for S m st = False"

section \<open>A sample server\<close>

text \<open>
  A session behaviour and a server state to run the functions on: \<open>process\<close> records
  the connection, \<open>reply\<close> leaves the session as it is, and the registry holds two
  connected sessions and the one that waits for the next connection.
\<close>

definition connect_process :: process_fn where
  "connect_process event session =
     (if event = GRPC_EVENT_CONNECTED then session\<lparr>status := CONNECTED\<rparr> else session)"

definition idle_reply :: reply_fn where
  "idle_reply session = session"

definition demo_server :: GreetingServer where
  "demo_server =
     \<lparr>running = True, session_id_allocator = 3,
      sessions = [(0, \<lparr>own_session_id = 0, status = CONNECTED\<rparr>),
                  (1, \<lparr>own_session_id = 1, status = CONNECTED\<rparr>),
                  (2, GreetingSession_new 2)],
      calls = []\<rparr>"

text \<open>
  A server whose allocator has reached the last \<open>uint64_t\<close>, with session 0 still
  connected.
\<close>

definition wrapping_server :: GreetingServer where
  "wrapping_server =
     \<lparr>running = True, session_id_allocator = 0xFFFFFFFFFFFFFFFF,
      sessions = [(0, \<lparr>own_session_id = 0, status = CONNECTED\<rparr>)],
      calls = []\<rparr>"

text \<open>A server with every thread between two turns.\<close>

definition idle_machine :: "GreetingServer \<Rightarrow> machine" where
  "idle_machine srv =
     \<lparr>server = srv, call_turn = None, notification_turn = None, inserts = [],
      sweep_due = False, stop_at = NotStopping\<rparr>"

section \<open>The tag codec is a round trip\<close>

lemmas GrpcEvent_defs =
  GRPC_EVENT_CONNECTED_def GRPC_EVENT_READ_DONE_def GRPC_EVENT_WRITE_DONE_def
  GRPC_EVENT_FINISHED_def

lemma kind_cases: "kind < (4::nat) \<Longrightarrow> kind = 0 \<or> kind = 1 \<or> kind = 2 \<or> kind = 3"
  by arith

lemma drop_kind: "kind < 4 \<Longrightarrow> drop_bit 2 (word_of_nat kind :: 64 word) = 0"
  using kind_cases [of kind] by (auto simp: drop_bit_eq_div)

lemma mask_kind: "kind < 4 \<Longrightarrow> unat ((word_of_nat kind :: 64 word) AND 3) = kind"
  using kind_cases [of kind] by auto

lemma drop_push_id:
  assumes "unat sid < 2 ^ 62"
  shows "drop_bit 2 (push_bit 2 (sid :: 64 word)) = sid"
proof -
  have "unat (push_bit 2 sid) = unat sid * 4"
    using assms by (simp add: push_bit_eq_mult unat_word_ariths)
  then have "drop_bit 2 (unat (push_bit 2 sid)) = unat sid"
    by (simp add: drop_bit_eq_div)
  then have "unat (drop_bit 2 (push_bit 2 sid)) = unat sid"
    by (simp only: unat_drop_bit_eq)
  then show ?thesis by (simp add: word_unat_eq_iff)
qed

lemma three_mask: "(3 :: 64 word) = mask 2"
  by (simp add: mask_eq_exp_minus_1)

lemma push_and_mask: "push_bit 2 (sid :: 64 word) AND 3 = 0"
  unfolding three_mask by (simp add: take_bit_eq_mask [symmetric] take_bit_push_bit)

text \<open>
  Claim C1. For every session identifier that fits in the bits a tag has left for it
  (64 minus GRPC_EVENT_BIT_LENGTH) and every event kind that fits in
  GRPC_EVENT_BIT_LENGTH bits, decoding the encoded tag gives the pair back: the
  kind is \<open>tag & GRPC_EVENT_MASK\<close>, the identifier is \<open>tag >> GRPC_EVENT_BIT_LENGTH\<close>, and
  the identifier does not spill into the kind bits.
\<close>

theorem decode_encode:
  assumes "unat sid < 2 ^ (64 - GRPC_EVENT_BIT_LENGTH)" and "kind < 2 ^ GRPC_EVENT_BIT_LENGTH"
  shows "decode (encode sid kind) = (sid, kind)"
proof -
  from assms have s: "unat sid < 2 ^ 62" and k: "kind < 4"
    by (simp_all add: GRPC_EVENT_BIT_LENGTH_def)
  have "decode_session_id (encode sid kind)
          = drop_bit 2 (push_bit 2 sid) OR drop_bit 2 (word_of_nat kind)"
    by (simp only: decode_session_id_def encode_def GRPC_EVENT_BIT_LENGTH_def drop_bit_or)
  also have "\<dots> = sid" using s k by (simp only: drop_push_id drop_kind) simp
  finally have 1: "decode_session_id (encode sid kind) = sid" .
  have "encode sid kind AND GRPC_EVENT_MASK
          = (push_bit 2 sid AND 3) OR (word_of_nat kind AND 3)"
    by (simp only: encode_def GRPC_EVENT_BIT_LENGTH_def GRPC_EVENT_MASK_def word_ao_dist)
  also have "\<dots> = word_of_nat kind AND 3" by (simp only: push_and_mask) simp
  finally have "decode_event (encode sid kind) = unat ((word_of_nat kind :: 64 word) AND 3)"
    by (simp only: decode_event_def)
  then have 2: "decode_event (encode sid kind) = kind" using k by (simp only: mask_kind)
  from 1 2 show ?thesis by (simp only: decode_def)
qed

theorem decode_encode_witness:
  "encode 5 GRPC_EVENT_WRITE_DONE = 22 \<and>
   decode (encode 5 GRPC_EVENT_WRITE_DONE) = (5, GRPC_EVENT_WRITE_DONE)"
  using decode_encode [of 5 GRPC_EVENT_WRITE_DONE]
  by (simp add: GRPC_EVENT_BIT_LENGTH_def GRPC_EVENT_WRITE_DONE_def encode_def)

section \<open>Printing is defined on the four kinds only\<close>

text \<open>
  Claim C10. For each of CONNECTED, READ_DONE, WRITE_DONE and FINISHED the print
  operator returns the stream with exactly that kind's name written to it; the switch
  has no default branch, so for a value that is none of the four enumerators, and
  only for such a value, control leaves the function without a returned value.
\<close>

theorem print_GrpcEvent_total_on_kinds:
  "print_GrpcEvent os GRPC_EVENT_CONNECTED = Some (os @ ''GRPC_EVENT_CONNECTED'') \<and>
   print_GrpcEvent os GRPC_EVENT_READ_DONE = Some (os @ ''GRPC_EVENT_READ_DONE'') \<and>
   print_GrpcEvent os GRPC_EVENT_WRITE_DONE = Some (os @ ''GRPC_EVENT_WRITE_DONE'') \<and>
   print_GrpcEvent os GRPC_EVENT_FINISHED = Some (os @ ''GRPC_EVENT_FINISHED'') \<and>
   (print_GrpcEvent os event = None \<longleftrightarrow>
      event \<notin> {GRPC_EVENT_CONNECTED, GRPC_EVENT_READ_DONE, GRPC_EVENT_WRITE_DONE,
                 GRPC_EVENT_FINISHED})"
  by (simp add: print_GrpcEvent_def GrpcEvent_defs)

theorem print_GrpcEvent_witness:
  "print_GrpcEvent ''ev: '' GRPC_EVENT_FINISHED = Some ''ev: GRPC_EVENT_FINISHED'' \<and>
   print_GrpcEvent ''ev: '' 4 = None"
  using print_GrpcEvent_total_on_kinds [of "''ev: ''" 4]
  by (simp add: GrpcEvent_defs)

section \<open>The registry operations\<close>

lemma emitted_append: "calls srv' = calls srv @ cs \<Longrightarrow> emitted srv srv' = cs"
  by (simp add: emitted_def)

lemma getSession_eq:
  "getSession sid srv =
     (map_of (sessions srv) sid, record_calls [LockSessions, UnlockSessions] srv)"
  by (simp add: getSession_def record_calls_def)

lemma removeSession_eq:
  "removeSession sid srv =
     record_calls [LockSessions, UnlockSessions]
       (srv\<lparr>sessions := AList.delete sid (sessions srv)\<rparr>)"
  by (simp add: removeSession_def record_calls_def)

lemma map_of_None_keys: "map_of al k = None \<longleftrightarrow> k \<notin> fst ` set al"
  by (simp add: map_of_eq_None_iff)

text \<open>
  Claim C8. Removing an identifier that is absent from the registry is a no-op: the
  call has no error result, and it leaves the server as it was but for taking and
  releasing the registry mutex. Removing is idempotent: a second removal of the same
  identifier leaves the registry as the first one did, with the identifier absent.
\<close>

theorem removeSession_absent_noop:
  "(map_of (sessions srv) sessionId = None \<longrightarrow>
      removeSession sessionId srv = record_calls [LockSessions, UnlockSessions] srv) \<and>
   sessions (removeSession sessionId (removeSession sessionId srv))
      = sessions (removeSession sessionId srv) \<and>
   fst (getSession sessionId (removeSession sessionId srv)) = None"
  by (simp add: removeSession_eq getSession_eq record_calls_def map_of_None_keys
      delete_idem delete_notin_dom)

theorem removeSession_absent_noop_witness:
  "map_of (sessions demo_server) 7 = None \<and>
   sessions (removeSession 7 demo_server) = sessions demo_server \<and>
   running (removeSession 7 demo_server) = running demo_server \<and>
   session_id_allocator (removeSession 7 demo_server) = session_id_allocator demo_server \<and>
   map (fst) (sessions (removeSession 1 (removeSession 1 demo_server))) = [0, 2]"
  using removeSession_absent_noop [of demo_server 7]
  by (simp add: demo_server_def record_calls_def removeSession_eq)

section \<open>One event in a dispatch loop\<close>

lemma notification_body_eq:
  "completion_queue_notification_body = completion_queue_call_body"
  by (intro ext)
    (simp add: completion_queue_notification_body_def completion_queue_call_body_def)

lemma body_finished:
  assumes "decode_event t = GRPC_EVENT_FINISHED"
  shows "completion_queue_call_body P (t, ok) srv = removeSession (decode_session_id t) srv"
  using assms by (simp add: completion_queue_call_body_def)

lemma body_absent:
  assumes "decode_event t \<noteq> GRPC_EVENT_FINISHED"
    and "map_of (sessions srv) (decode_session_id t) = None"
  shows "completion_queue_call_body P (t, ok) srv
           = record_calls [LockSessions, UnlockSessions] srv"
  using assms by (simp add: completion_queue_call_body_def getSession_eq)

lemma body_not_ok:
  assumes "decode_event t \<noteq> GRPC_EVENT_FINISHED"
    and "map_of (sessions srv) (decode_session_id t) = Some s" and "\<not> ok"
  shows "completion_queue_call_body P (t, ok) srv =
     removeSession (decode_session_id t) (record_calls [LockSessions, UnlockSessions] srv)"
  using assms by (simp add: completion_queue_call_body_def getSession_eq)

lemma body_process:
  assumes "decode_event t \<noteq> GRPC_EVENT_FINISHED"
    and "map_of (sessions srv) (decode_session_id t) = Some s" and "ok"
  shows "completion_queue_call_body P (t, ok) srv =
     locked_process P (decode_session_id t) (decode_event t) s
       (record_calls [LockSessions, UnlockSessions] srv)"
  using assms by (simp add: completion_queue_call_body_def getSession_eq)

text \<open>
  Claim C2. For an event \<open>(tag, ok)\<close> pulled by either dispatch loop: if the decoded
  kind is FINISHED or \<open>ok\<close> is false, the decoded session is not in the registry
  afterwards, every other entry is as before and \<open>process\<close> is not called; if the
  kind is not FINISHED, \<open>ok\<close> holds and the session is absent, the event is ignored
  (nothing happens but the lookup under the registry mutex); otherwise \<open>process\<close> is
  called with the decoded kind on the session found, exactly once and between taking
  and releasing that session's mutex.
\<close>

theorem dispatch_event:
  assumes "body = completion_queue_call_body process
         \<or> body = completion_queue_notification_body process"
  shows
    "(decode_event t = GRPC_EVENT_FINISHED \<or> \<not> ok \<longrightarrow>
        map_of (sessions (body (t, ok) srv)) (decode_session_id t) = None \<and>
        (\<forall>k. k \<noteq> decode_session_id t \<longrightarrow>
           map_of (sessions (body (t, ok) srv)) k = map_of (sessions srv) k) \<and>
        (\<forall>k e. Process k e \<notin> set (emitted srv (body (t, ok) srv)))) \<and>
     (decode_event t \<noteq> GRPC_EVENT_FINISHED \<and> ok \<and>
      map_of (sessions srv) (decode_session_id t) = None \<longrightarrow>
        body (t, ok) srv = record_calls [LockSessions, UnlockSessions] srv) \<and>
     (decode_event t \<noteq> GRPC_EVENT_FINISHED \<and> ok \<and>
      map_of (sessions srv) (decode_session_id t) = Some s \<longrightarrow>
        emitted srv (body (t, ok) srv) =
          [LockSessions, UnlockSessions, LockSession (decode_session_id t),
           Process (decode_session_id t) (decode_event t),
           UnlockSession (decode_session_id t)] \<and>
        sessions (body (t, ok) srv) =
          AList.update (decode_session_id t) (process (decode_event t) s) (sessions srv))"
proof -
  from assms have b: "body = completion_queue_call_body process"
    by (auto simp: notification_body_eq)
  let ?S = "decode_session_id t"
  have A: "map_of (sessions (body (t, ok) srv)) ?S = None \<and>
        (\<forall>k. k \<noteq> ?S \<longrightarrow> map_of (sessions (body (t, ok) srv)) k = map_of (sessions srv) k) \<and>
        (\<forall>k e. Process k e \<notin> set (emitted srv (body (t, ok) srv)))"
    if h: "decode_event t = GRPC_EVENT_FINISHED \<or> \<not> ok"
  proof (cases "decode_event t = GRPC_EVENT_FINISHED")
    case True
    then show ?thesis unfolding b
      by (simp add: body_finished removeSession_eq record_calls_def emitted_def delete_conv')
  next
    case nf: False
    with h have nok: "\<not> ok" by simp
    show ?thesis
    proof (cases "map_of (sessions srv) ?S")
      case None
      then show ?thesis unfolding b using nf
        by (simp add: body_absent record_calls_def emitted_def)
    next
      case (Some s')
      then show ?thesis unfolding b using nf nok
        by (simp add: body_not_ok removeSession_eq record_calls_def emitted_def delete_conv')
    qed
  qed
  have B: "body (t, ok) srv = record_calls [LockSessions, UnlockSessions] srv"
    if "decode_event t \<noteq> GRPC_EVENT_FINISHED \<and> ok \<and> map_of (sessions srv) ?S = None"
    using that unfolding b by (simp add: body_absent)
  have C: "emitted srv (body (t, ok) srv) =
          [LockSessions, UnlockSessions, LockSession ?S, Process ?S (decode_event t),
           UnlockSession ?S] \<and>
        sessions (body (t, ok) srv)
          = AList.update ?S (process (decode_event t) s) (sessions srv)"
    if "decode_event t \<noteq> GRPC_EVENT_FINISHED \<and> ok \<and> map_of (sessions srv) ?S = Some s"
    using that unfolding b
    by (simp add: body_process locked_process_def record_calls_def emitted_def)
  from A B C show ?thesis by blast
qed

theorem dispatch_event_witness:
  "map fst (sessions (completion_queue_call_body connect_process (7, True) demo_server))
     = [0, 2] \<and>
   map fst (sessions (completion_queue_call_body connect_process (4, False) demo_server))
     = [0, 2] \<and>
   emitted demo_server (completion_queue_call_body connect_process (41, True) demo_server)
     = [LockSessions, UnlockSessions] \<and>
   emitted demo_server
       (completion_queue_notification_body connect_process (8, True) demo_server)
     = [LockSessions, UnlockSessions, LockSession 2, Process 2 GRPC_EVENT_CONNECTED,
        UnlockSession 2] \<and>
   map_of (sessions (completion_queue_notification_body connect_process (8, True) demo_server)) 2
     = Some \<lparr>own_session_id = 2, status = CONNECTED\<rparr>"
  using
    dispatch_event [of "completion_queue_call_body connect_process" connect_process
      7 True demo_server]
    dispatch_event [of "completion_queue_call_body connect_process" connect_process
      4 False demo_server]
    dispatch_event [of "completion_queue_call_body connect_process" connect_process
      41 True demo_server]
    dispatch_event [of "completion_queue_notification_body connect_process" connect_process
      8 True demo_server "GreetingSession_new 2"]
  by (simp add: decode_event_def decode_session_id_def GRPC_EVENT_MASK_def
      GRPC_EVENT_BIT_LENGTH_def GrpcEvent_defs drop_bit_eq_div demo_server_def
      completion_queue_call_body_def completion_queue_notification_body_def getSession_eq
      removeSession_eq record_calls_def locked_process_def emitted_def connect_process_def
      GreetingSession_new_def)

section \<open>Shutdown: who is cancelled, and in which order\<close>

lemma count_cancel_absent:
  "k \<notin> fst ` set xs \<Longrightarrow> count_list (cancel_sessions xs) (TryCancel k) = 0"
  by (induction xs rule: cancel_sessions.induct) auto

lemma count_cancel:
  "distinct (map fst xs) \<Longrightarrow>
   count_list (cancel_sessions xs) (TryCancel k) =
     (case map_of xs k of None \<Rightarrow> 0
      | Some s \<Rightarrow> if status s \<noteq> WAIT_CONNECT then 1 else 0)"
proof (induction xs rule: cancel_sessions.induct)
  case 1
  then show ?case by simp
next
  case (2 k' s' rest)
  show ?case
  proof (cases "k' = k")
    case True
    with 2 have "k \<notin> fst ` set rest" by auto
    then have "count_list (cancel_sessions rest) (TryCancel k) = 0"
      by (rule count_cancel_absent)
    with True show ?thesis by simp
  next
    case False
    with 2 show ?thesis by simp
  qed
qed

lemma cancel_sessions_kinds:
  "c \<in> set (cancel_sessions xs) \<Longrightarrow>
     (\<exists>k. c = LockSession k \<or> c = UnlockSession k \<or> c = TryCancel k)"
  by (induction xs rule: cancel_sessions.induct) (auto split: if_splits)

lemma cancel_sessions_cancels:
  "[c \<leftarrow> cancel_sessions xs. \<forall>k. c \<noteq> LockSession k \<and> c \<noteq> UnlockSession k]
     = map (TryCancel \<circ> fst) [e \<leftarrow> xs. status (snd e) \<noteq> WAIT_CONNECT]"
  by (induction xs rule: cancel_sessions.induct) auto

lemma stop_running:
  "running srv \<Longrightarrow> stop srv =
     srv\<lparr>running := False,
         calls := calls srv @ [RunningCleared, LockSessions] @ cancel_sessions (sessions srv)
           @ [UnlockSessions, ServerShutdown, CqCallShutdown, CqNotificationShutdown]\<rparr>"
  by (simp add: stop_def record_calls_def)

lemma emitted_stop:
  "running srv \<Longrightarrow> emitted srv (stop srv) =
     [RunningCleared, LockSessions] @ cancel_sessions (sessions srv)
           @ [UnlockSessions, ServerShutdown, CqCallShutdown, CqNotificationShutdown]"
  by (simp add: stop_running emitted_def)

text \<open>
  Claim C3. In the cancellation sweep that \<open>stop\<close> makes over the registry of a running
  server, a session whose status is WAIT_CONNECT receives no \<open>TryCancel\<close>, and every
  session whose status is not WAIT_CONNECT (every CONNECTED one among them) receives
  exactly one. An identifier that is not in the registry receives none.
\<close>

theorem stop_cancels_connected_only:
  assumes "running srv" and "sessions_wf srv"
  shows
    "(map_of (sessions srv) k = Some s \<and> status s = WAIT_CONNECT \<longrightarrow>
        TryCancel k \<notin> set (emitted srv (stop srv))) \<and>
     (map_of (sessions srv) k = Some s \<and> status s \<noteq> WAIT_CONNECT \<longrightarrow>
        count_list (emitted srv (stop srv)) (TryCancel k) = 1) \<and>
     (map_of (sessions srv) k = None \<longrightarrow> TryCancel k \<notin> set (emitted srv (stop srv)))"
proof -
  have d: "distinct (map fst (sessions srv))"
    using assms(2) by (simp add: sessions_wf_def)
  have c: "count_list (emitted srv (stop srv)) (TryCancel k) =
     (case map_of (sessions srv) k of None \<Rightarrow> 0
      | Some s \<Rightarrow> if status s \<noteq> WAIT_CONNECT then 1 else 0)"
    using assms(1) by (simp add: emitted_stop count_cancel [OF d])
  show ?thesis
    by (simp add: count_list_0_iff [symmetric] c)
qed

theorem stop_cancels_connected_only_witness:
  "running demo_server \<and> sessions_wf demo_server \<and>
   count_list (emitted demo_server (stop demo_server)) (TryCancel 0) = 1 \<and>
   count_list (emitted demo_server (stop demo_server)) (TryCancel 1) = 1 \<and>
   TryCancel 2 \<notin> set (emitted demo_server (stop demo_server)) \<and>
   TryCancel 3 \<notin> set (emitted demo_server (stop demo_server))"
  using stop_cancels_connected_only [of demo_server 0 "\<lparr>own_session_id = 0, status = CONNECTED\<rparr>"]
    stop_cancels_connected_only [of demo_server 1 "\<lparr>own_session_id = 1, status = CONNECTED\<rparr>"]
    stop_cancels_connected_only [of demo_server 2 "GreetingSession_new 2"]
    stop_cancels_connected_only [of demo_server 3]
  by (simp add: demo_server_def sessions_wf_def GreetingSession_new_def)

text \<open>
  Claim C4. \<open>stop\<close> on a running server performs its steps in this order, one after
  the other: it clears the running flag, cancels the sessions that are not in
  WAIT_CONNECT while it holds the registry mutex, shuts down the gRPC server, shuts
  down the call completion queue, and shuts down the notification completion queue
  last; so no queue is shut down before the server. The sweep itself makes no other
  call than taking a session's mutex, \<open>TryCancel\<close> and releasing it. On a server that
  is not running \<open>stop\<close> returns at once and performs none of the steps.
\<close>

theorem stop_order:
  "(running srv \<longrightarrow>
      emitted srv (stop srv) =
        [RunningCleared] @ [LockSessions] @ cancel_sessions (sessions srv) @ [UnlockSessions]
          @ [ServerShutdown] @ [CqCallShutdown] @ [CqNotificationShutdown] \<and>
      \<not> running (stop srv)) \<and>
   (\<not> running srv \<longrightarrow> stop srv = srv) \<and>
   [c \<leftarrow> cancel_sessions (sessions srv). \<forall>k. c \<noteq> LockSession k \<and> c \<noteq> UnlockSession k]
     = map (TryCancel \<circ> fst) [e \<leftarrow> sessions srv. status (snd e) \<noteq> WAIT_CONNECT]"
proof -
  have 1: "emitted srv (stop srv) =
        [RunningCleared] @ [LockSessions] @ cancel_sessions (sessions srv) @ [UnlockSessions]
          @ [ServerShutdown] @ [CqCallShutdown] @ [CqNotificationShutdown]"
    if "running srv" using that by (simp add: emitted_stop)
  have 2: "\<not> running (stop srv)" if "running srv"
    using that by (simp add: stop_running)
  have 3: "stop srv = srv" if "\<not> running srv"
    using that by (simp add: stop_def)
  from 1 2 3 show ?thesis
    by (simp only: cancel_sessions_cancels) blast
qed

theorem stop_order_witness:
  "running demo_server \<and>
   emitted demo_server (stop demo_server) =
     [RunningCleared, LockSessions,
      LockSession 0, TryCancel 0, UnlockSession 0,
      LockSession 1, TryCancel 1, UnlockSession 1,
      LockSession 2, UnlockSession 2,
      UnlockSessions, ServerShutdown, CqCallShutdown, CqNotificationShutdown] \<and>
   \<not> running (stop demo_server) \<and>
   stop (stop demo_server) = stop demo_server"
  using stop_order [of demo_server] stop_order [of "stop demo_server"]
  by (simp add: demo_server_def GreetingSession_new_def)

section \<open>The calls of a sweep, of a step and of a schedule\<close>

lemma reply_sessions_calls:
  "fst (reply_sessions R xs)
     = concat (map (\<lambda>e. [LockSession (fst e), Reply (fst e), UnlockSession (fst e)]) xs)"
  by (induction xs) (auto split: prod.splits)

lemma reply_sessions_sessions:
  "snd (reply_sessions R xs) = map (\<lambda>(k, s). (k, R s)) xs"
  by (induction xs) (auto split: prod.splits)



lemma sweep_eq:
  "publish_greeting_sweep R srv =
     srv\<lparr>sessions := snd (reply_sessions R (sessions srv)),
         calls := calls srv @ [LockSessions] @ fst (reply_sessions R (sessions srv)) @ [UnlockSessions]\<rparr>"
  by (simp add: publish_greeting_sweep_def record_calls_def split: prod.splits)

lemma new_session_ids_append:
  "new_session_ids (cs @ ds) = new_session_ids cs @ new_session_ids ds"
  by (induction cs rule: new_session_ids.induct) auto

lemma new_session_ids_cancel: "new_session_ids (cancel_sessions xs) = []"
  by (induction xs rule: cancel_sessions.induct) auto

lemma new_session_ids_reply: "new_session_ids (fst (reply_sessions R xs)) = []"
  by (induction xs) (auto split: prod.splits)

lemma process_not_cancel: "Process S e \<notin> set (cancel_sessions xs)"
  by (induction xs rule: cancel_sessions.induct) auto

lemma process_not_reply: "Process S e \<notin> set (fst (reply_sessions R xs))"
  by (induction xs) (auto split: prod.splits)

lemma keys_reply: "map fst (snd (reply_sessions R xs)) = map fst xs"
  by (simp add: reply_sessions_sessions split_def)

lemma keys_reply_set: "fst ` set (snd (reply_sessions R xs)) = fst ` set xs"
  using keys_reply [of R xs] by (metis list.set_map)

lemma addSession_eq:
  "snd (addSession b srv) =
     srv\<lparr>session_id_allocator := session_id_allocator srv + 1,
         sessions := (if b then AList.update (session_id_allocator srv)
                        (GreetingSession_new (session_id_allocator srv)) (sessions srv)
                      else sessions srv),
         calls := calls srv @ NewSession (session_id_allocator srv)
                    # (if b then [LockSessions, UnlockSessions] else [])\<rparr>"
  by (simp add: addSession_def record_calls_def Let_def)

lemma consecutive_Cons:
  "a # map (\<lambda>i. a + 1 + word_of_nat i) [0..<n] = map (\<lambda>i. (a :: 64 word) + word_of_nat i) [0..<Suc n]"
proof -
  have "[0..<Suc n] = 0 # map Suc [0..<n]"
    by (simp add: upt_conv_Cons map_Suc_upt del: upt_Suc)
  then show ?thesis by (simp add: o_def add.assoc del: upt_Suc)
qed

lemma unat_plus_small:
  assumes "unat (a :: 64 word) + i < 2 ^ 64"
  shows "unat (a + word_of_nat i) = unat a + i"
proof -
  from assms have i: "i < 2 ^ 64" by simp
  then have u: "unat (word_of_nat i :: 64 word) = i"
    by (simp add: unat_of_nat)
  with assms have "unat a + unat (word_of_nat i :: 64 word) < 2 ^ LENGTH(64)" by simp
  then have "unat (a + word_of_nat i) = unat a + unat (word_of_nat i :: 64 word)"
    by (simp only: unat_add_lem)
  with u show ?thesis by simp
qed

lemma consecutive_sorted:
  assumes "unat (a :: 64 word) + n \<le> 2 ^ 64"
  shows "sorted_wrt (<) (map (\<lambda>i. a + word_of_nat i) [0..<n])"
proof -
  have "a + word_of_nat i < a + word_of_nat j" if "i < j" "j < n" for i j
  proof -
    from that assms have "unat a + i < 2 ^ 64" and "unat a + j < 2 ^ 64" by simp_all
    then have "unat (a + word_of_nat i) = unat a + i" and "unat (a + word_of_nat j) = unat a + j"
      by (simp_all only: unat_plus_small)
    with that show ?thesis by (simp add: word_less_nat_alt)
  qed
  then show ?thesis
    by (simp add: sorted_wrt_map sorted_wrt_iff_nth_less)
qed

lemma consecutive_lower:
  assumes "unat (a :: 64 word) + n \<le> 2 ^ 64" and "k \<in> set (map (\<lambda>i. a + word_of_nat i) [0..<n])"
  shows "a \<le> k"
proof -
  from assms(2) obtain i where i: "i < n" and k: "k = a + word_of_nat i" by auto
  with assms(1) have "unat a + i < 2 ^ 64" by simp
  then have "unat (a + word_of_nat i) = unat a + i" by (simp only: unat_plus_small)
  with k show ?thesis by (simp add: word_le_nat_alt)
qed


lemma process_events_append:
  "process_events S (cs @ ds) = process_events S cs @ process_events S ds"
  by (induction S cs rule: process_events.induct) auto

lemma process_events_cancel: "process_events S (cancel_sessions xs) = []"
  by (induction xs rule: cancel_sessions.induct) auto

lemma process_events_reply: "process_events S (fst (reply_sessions R xs)) = []"
  by (induction xs) (auto split: prod.splits)


lemma stop_pieces:
  "stop srv = (if \<not> running srv then srv else stop_shutdown (stop_cancel (stop_clear srv)))"
  by (simp add: stop_def stop_clear_def stop_cancel_def stop_shutdown_def record_calls_def)

lemma addSession_halves:
  "addSession init_ok srv =
     (case addSession_begin init_ok srv of
        (None, srv2) \<Rightarrow> (None, srv2)
      | (Some ins, srv2) \<Rightarrow> (Some (snd ins), addSession_insert ins srv2))"
  by (simp add: addSession_def addSession_begin_def addSession_insert_def record_calls_def Let_def)

lemma body_halves:
  "completion_queue_call_body P nxt srv =
     (case dispatch_lookup nxt srv of
        (None, srv1) \<Rightarrow> srv1
      | (Some p, srv1) \<Rightarrow> dispatch_finish P p srv1)"
  by (cases nxt)
    (auto simp add: completion_queue_call_body_def dispatch_lookup_def dispatch_finish_def
      getSession_eq record_calls_def Let_def split: option.splits)

text \<open>The effect of the stretches on the server.\<close>

lemma lookup_server:
  "snd (dispatch_lookup (t, ok) srv) =
     record_calls [LockSessions, UnlockSessions]
       (if decode_event t = GRPC_EVENT_FINISHED
        then srv\<lparr>sessions := AList.delete (decode_session_id t) (sessions srv)\<rparr> else srv)"
  by (simp add: dispatch_lookup_def removeSession_eq getSession_eq Let_def split: option.splits)

lemma in_keys_iff: "k \<in> fst ` set al \<longleftrightarrow> map_of al k \<noteq> None"
  by (simp add: map_of_eq_None_iff)

lemma lookup_slot:
  "fst (dispatch_lookup (t, ok) srv) = Some p \<Longrightarrow>
     turn_session_id p = decode_session_id t \<and> decode_session_id t \<in> fst ` set (sessions srv)
     \<and> decode_event t \<noteq> GRPC_EVENT_FINISHED \<and> turn_ok p = ok"
  by (auto simp add: dispatch_lookup_def getSession_eq Let_def in_keys_iff
      split: option.splits if_splits)

lemma finish_calls:
  "calls (dispatch_finish P p srv) = calls srv @
     (if \<not> turn_ok p then [LockSessions, UnlockSessions]
      else [LockSession (turn_session_id p), Process (turn_session_id p) (turn_event p),
            UnlockSession (turn_session_id p)])"
  by (simp add: dispatch_finish_def removeSession_eq locked_process_def record_calls_def
      split: option.splits)

lemma finish_allocator:
  "session_id_allocator (dispatch_finish P p srv) = session_id_allocator srv"
  by (simp add: dispatch_finish_def removeSession_eq locked_process_def record_calls_def
      split: option.splits)

lemma finish_running: "running (dispatch_finish P p srv) = running srv"
  by (simp add: dispatch_finish_def removeSession_eq locked_process_def record_calls_def
      split: option.splits)

lemma update_present_keys:
  "map_of al k = Some v \<Longrightarrow> map fst (AList.update k v' al) = map fst al"
  by (induction al) auto

lemma finish_keys:
  "map fst (sessions (dispatch_finish P p srv)) =
     (if \<not> turn_ok p then removeAll (turn_session_id p) (map fst (sessions srv))
      else map fst (sessions srv))"
  by (simp add: dispatch_finish_def removeSession_eq locked_process_def record_calls_def
      delete_keys update_present_keys split: option.splits)

lemma begin_server:
  "snd (addSession_begin b srv) =
     srv\<lparr>session_id_allocator := session_id_allocator srv + 1,
         calls := calls srv @ [NewSession (session_id_allocator srv)]\<rparr>"
  by (simp add: addSession_begin_def record_calls_def Let_def)

lemma begin_result:
  "fst (addSession_begin b srv) =
     (if b then Some (session_id_allocator srv, GreetingSession_new (session_id_allocator srv))
      else None)"
  by (simp add: addSession_begin_def Let_def)

lemma insert_server:
  "addSession_insert ins srv =
     srv\<lparr>sessions := AList.update (fst ins) (snd ins) (sessions srv),
         calls := calls srv @ [LockSessions, UnlockSessions]\<rparr>"
  by (cases ins) (simp add: addSession_insert_def record_calls_def)

lemma stop_clear_eq:
  "stop_clear srv = srv\<lparr>running := False, calls := calls srv @ [RunningCleared]\<rparr>"
  by (simp add: stop_clear_def record_calls_def)

lemma stop_cancel_eq:
  "stop_cancel srv =
     srv\<lparr>calls := calls srv @ [LockSessions] @ cancel_sessions (sessions srv) @ [UnlockSessions]\<rparr>"
  by (simp add: stop_cancel_def record_calls_def)

lemma stop_shutdown_eq:
  "stop_shutdown srv =
     srv\<lparr>calls := calls srv @ [ServerShutdown, CqCallShutdown, CqNotificationShutdown]\<rparr>"
  by (simp add: stop_shutdown_def record_calls_def)

lemma detach_server [simp]: "server (detach_turns k m) = server m"
  and detach_inserts [simp]: "inserts (detach_turns k m) = inserts m"
  and detach_sweep_due [simp]: "sweep_due (detach_turns k m) = sweep_due m"
  by (simp_all add: detach_turns_def)

lemma detach_call_turn [simp]: "call_turn (detach_turns k m) = detach k (call_turn m)"
  and detach_notification_turn [simp]:
    "notification_turn (detach_turns k m) = detach k (notification_turn m)"
  by (simp_all add: detach_turns_def)

lemma detach_None: "detach k None = None"
  by (simp add: detach_def)

lemma holds_detach [simp]: "holds S (detach k slot) = holds S slot"
  by (simp add: holds_def detach_def split: option.splits)

lemma turns_on_detach [simp]: "turns_on S (detach_turns k m) = turns_on S m"
  by (simp add: turns_on_def detach_turns_def)

lemmas stretch_simps =
  lookup_server finish_calls finish_allocator finish_running begin_server begin_result
  insert_server stop_clear_eq stop_cancel_eq stop_shutdown_eq sweep_eq removeSession_eq
  record_calls_def

lemma step_prefix:
  "\<exists>cs. calls (server (exec_step P R st m)) = calls (server m) @ cs"
  by (cases st)
    (auto simp add: stretch_simps case_prod_beta Let_def split: option.splits)

lemma step_calls:
  "calls (server (exec_step P R st m))
     = calls (server m) @ emitted (server m) (server (exec_step P R st m))"
  using step_prefix [of P R st m] by (auto simp: emitted_def)

lemma step_allocator:
  "session_id_allocator (server (exec_step P R st m)) =
     (if is_AddSessionBegin st then session_id_allocator (server m) + 1
      else session_id_allocator (server m))"
  by (cases st)
    (auto simp add: stretch_simps case_prod_beta Let_def split: option.splits)

lemma step_new_session_ids:
  "new_session_ids (emitted (server m) (server (exec_step P R st m))) =
     (if is_AddSessionBegin st then [session_id_allocator (server m)] else [])"
  by (cases st)
    (auto simp add: stretch_simps emitted_def case_prod_beta Let_def new_session_ids_append
      new_session_ids_reply new_session_ids_cancel split: option.splits)



lemma lookup_sessions:
  "sessions (snd (dispatch_lookup (t, ok) srv)) =
     (if decode_event t = GRPC_EVENT_FINISHED
      then AList.delete (decode_session_id t) (sessions srv) else sessions srv)"
  by (simp add: lookup_server record_calls_def)

lemma finish_keys_subset:
  "fst ` set (sessions (dispatch_finish P p srv)) \<subseteq> fst ` set (sessions srv)"
proof -
  have "set (map fst (sessions (dispatch_finish P p srv))) \<subseteq> set (map fst (sessions srv))"
    by (simp only: finish_keys) auto
  then show ?thesis by simp
qed

lemma step_keys:
  "fst ` set (sessions (server (exec_step P R st m))) \<union> fst ` set (inserts (exec_step P R st m))
     \<subseteq> fst ` set (sessions (server m)) \<union> fst ` set (inserts m)
         \<union> (if is_AddSessionBegin st then {session_id_allocator (server m)} else {})"
proof (cases st)
  case (CallLookup t ok)
  then show ?thesis
    using dom_delete_subset [of "decode_session_id t" "sessions (server m)"]
    by (auto simp add: case_prod_beta Let_def lookup_sessions split: option.splits)
next
  case CallFinish
  then show ?thesis
    using finish_keys_subset [of P _ "server m"]
    by (auto simp add: Let_def split: option.splits)
next
  case (NotificationLookup t ok)
  then show ?thesis
    using dom_delete_subset [of "decode_session_id t" "sessions (server m)"]
    by (auto simp add: case_prod_beta Let_def lookup_sessions split: option.splits)
next
  case NotificationFinish
  then show ?thesis
    using finish_keys_subset [of P _ "server m"]
    by (auto simp add: Let_def split: option.splits)
next
  case (AddSessionBegin b)
  then show ?thesis
    by (auto simp add: begin_server begin_result case_prod_beta split: option.splits if_splits)
next
  case (AddSessionInsert n)
  show ?thesis
  proof (cases "n < length (inserts m)")
    case True
    then have "inserts m ! n \<in> set (inserts m)" by simp
    then have k: "fst (inserts m ! n) \<in> fst ` set (inserts m)" by (rule imageI)
    have "set (take n (inserts m)) \<subseteq> set (inserts m)"
      and "set (drop (Suc n) (inserts m)) \<subseteq> set (inserts m)"
      by (rule set_take_subset, rule set_drop_subset)
    with True k AddSessionInsert show ?thesis
      by (auto simp add: insert_server dom_update)
  next
    case False
    with AddSessionInsert show ?thesis by simp
  qed
next
  case (RemoveSession sid)
  then show ?thesis
    using dom_delete_subset [of sid "sessions (server m)"]
    by (auto simp add: removeSession_eq record_calls_def)
next
  case PublishSweep
  then show ?thesis by (auto simp add: sweep_eq keys_reply_set)
qed (auto simp add: stop_clear_eq stop_cancel_eq stop_shutdown_eq)

lemma holds_le_1: "holds S slot \<le> 1"
  by (simp add: holds_def split: option.splits)

lemma holds_None: "holds S None = 0"
  and holds_Some: "holds S (Some p) = (if turn_session_id p = S then 1 else 0)"
  by (simp_all add: holds_def)

lemma lookup_holds:
  assumes "S \<notin> fst ` set (sessions srv)"
  shows "holds S (fst (dispatch_lookup (t, ok) srv)) = 0"
proof (cases "fst (dispatch_lookup (t, ok) srv)")
  case None
  then show ?thesis by (simp add: holds_def)
next
  case (Some p)
  from lookup_slot [OF Some] assms have "turn_session_id p \<noteq> S" by auto
  with Some show ?thesis by (simp add: holds_def)
qed

lemma step_process:
  assumes "S \<notin> fst ` set (sessions (server m))"
  shows "length (process_events S (emitted (server m) (server (exec_step P R st m))))
           + turns_on S (exec_step P R st m) \<le> turns_on S m"
proof (cases st)
  case (CallLookup t ok)
  show ?thesis
  proof (cases "call_turn m")
    case None
    have "holds S (fst (dispatch_lookup (t, ok) (server m))) = 0"
      using assms by (rule lookup_holds)
    with None CallLookup show ?thesis
      by (simp add: case_prod_beta Let_def turns_on_def emitted_def lookup_server
          record_calls_def detach_turns_def)
  next
    case (Some p)
    with CallLookup show ?thesis by (simp add: emitted_def)
  qed
next
  case CallFinish
  show ?thesis
  proof (cases "call_turn m")
    case None
    with CallFinish show ?thesis by (simp add: emitted_def)
  next
    case (Some p)
    with CallFinish show ?thesis
      by (simp add: Let_def turns_on_def emitted_def finish_calls holds_None holds_Some)
  qed
next
  case (NotificationLookup t ok)
  show ?thesis
  proof (cases "notification_turn m")
    case None
    have "holds S (fst (dispatch_lookup (t, ok) (server m))) = 0"
      using assms by (rule lookup_holds)
    with None NotificationLookup show ?thesis
      by (simp add: case_prod_beta Let_def turns_on_def emitted_def lookup_server
          record_calls_def detach_turns_def)
  next
    case (Some p)
    with NotificationLookup show ?thesis by (simp add: emitted_def)
  qed
next
  case NotificationFinish
  show ?thesis
  proof (cases "notification_turn m")
    case None
    with NotificationFinish show ?thesis by (simp add: emitted_def)
  next
    case (Some p)
    with NotificationFinish show ?thesis
      by (simp add: Let_def turns_on_def emitted_def finish_calls holds_None holds_Some)
  qed
qed (auto simp add: stretch_simps emitted_def case_prod_beta turns_on_def
      process_events_append process_events_reply process_events_cancel split: option.splits)

text \<open>The effect of a schedule.\<close>

lemma exec_append: "exec P R (xs @ ys) m = exec P R ys (exec P R xs m)"
  by (induction xs arbitrary: m) auto

lemma exec_calls:
  "calls (server (exec P R sched m))
     = calls (server m) @ emitted (server m) (server (exec P R sched m))"
proof (induction sched arbitrary: m)
  case Nil
  then show ?case by (simp add: emitted_def)
next
  case (Cons st rest)
  from step_calls [of P R st m] Cons [of "exec_step P R st m"]
  have "\<exists>cs. calls (server (exec P R (st # rest) m)) = calls (server m) @ cs" by simp
  then show ?case by (auto simp: emitted_def)
qed

lemma emitted_exec_Cons:
  "emitted (server m) (server (exec P R (st # rest) m)) =
     emitted (server m) (server (exec_step P R st m))
       @ emitted (server (exec_step P R st m)) (server (exec P R rest (exec_step P R st m)))"
proof -
  let ?m1 = "exec_step P R st m"
  let ?m2 = "exec P R rest ?m1"
  let ?cs = "emitted (server m) (server ?m1)"
  let ?ds = "emitted (server ?m1) (server ?m2)"
  have "calls (server ?m1) = calls (server m) @ ?cs" by (rule step_calls)
  moreover have "calls (server ?m2) = calls (server ?m1) @ ?ds" by (rule exec_calls)
  ultimately have "calls (server ?m2) = calls (server m) @ (?cs @ ?ds)" by simp
  then have "emitted (server m) (server ?m2) = ?cs @ ?ds" by (rule emitted_append)
  then show ?thesis by simp
qed

lemma exec_new_session_ids:
  "session_id_allocator (server (exec P R sched m)) =
     session_id_allocator (server m) + word_of_nat (length (filter is_AddSessionBegin sched)) \<and>
   new_session_ids (emitted (server m) (server (exec P R sched m))) =
     map (\<lambda>i. session_id_allocator (server m) + word_of_nat i)
       [0..<length (filter is_AddSessionBegin sched)]"
proof (induction sched arbitrary: m)
  case Nil
  then show ?case by (simp add: emitted_def)
next
  case (Cons st rest)
  let ?m1 = "exec_step P R st m"
  let ?a = "session_id_allocator (server m)"
  let ?n = "length (filter is_AddSessionBegin rest)"
  note ih = Cons.IH [of ?m1]
  show ?case
  proof (cases "is_AddSessionBegin st")
    case True
    then have a1: "session_id_allocator (server ?m1) = ?a + 1"
      by (simp add: step_allocator)
    have "new_session_ids (emitted (server m) (server (exec P R (st # rest) m)))
        = ?a # map (\<lambda>i. ?a + 1 + word_of_nat i) [0..<?n]"
      using True ih a1
      by (simp only: emitted_exec_Cons new_session_ids_append step_new_session_ids) simp
    then have "new_session_ids (emitted (server m) (server (exec P R (st # rest) m)))
        = map (\<lambda>i. ?a + word_of_nat i) [0..<Suc ?n]"
      by (simp only: consecutive_Cons)
    with True ih a1 show ?thesis by (simp del: upt_Suc)
  next
    case False
    then have a1: "session_id_allocator (server ?m1) = ?a"
      by (simp add: step_allocator)
    have "new_session_ids (emitted (server m) (server (exec P R (st # rest) m)))
        = map (\<lambda>i. ?a + word_of_nat i) [0..<?n]"
      using False ih a1
      by (simp only: emitted_exec_Cons new_session_ids_append step_new_session_ids) simp
    with False ih a1 show ?thesis by simp
  qed
qed

lemma emitted_exec_new_session_ids:
  "new_session_ids (emitted (server m) (server (exec P R sched m))) =
     map (\<lambda>i. session_id_allocator (server m) + word_of_nat i)
       [0..<length (filter is_AddSessionBegin sched)]"
  using exec_new_session_ids [of P R sched m] by simp

lemma step_absent:
  assumes "S \<notin> fst ` set (sessions (server m)) \<union> fst ` set (inserts m)"
    and "S \<notin> set (new_session_ids (emitted (server m) (server (exec_step P R st m))))"
  shows "S \<notin> fst ` set (sessions (server (exec_step P R st m)))
             \<union> fst ` set (inserts (exec_step P R st m))"
proof -
  from assms(2) have "is_AddSessionBegin st \<longrightarrow> S \<noteq> session_id_allocator (server m)"
    by (auto simp add: step_new_session_ids)
  with assms(1) step_keys [of P R st m] show ?thesis
    by (auto split: if_splits)
qed

lemma exec_absent:
  assumes "S \<notin> fst ` set (sessions (server m)) \<union> fst ` set (inserts m)"
    and "S \<notin> set (new_session_ids (emitted (server m) (server (exec P R sched m))))"
  shows "S \<notin> fst ` set (sessions (server (exec P R sched m)))
             \<union> fst ` set (inserts (exec P R sched m)) \<and>
         length (process_events S (emitted (server m) (server (exec P R sched m))))
           + turns_on S (exec P R sched m) \<le> turns_on S m"
  using assms
proof (induction sched arbitrary: m)
  case Nil
  then show ?case by (simp add: emitted_def)
next
  case (Cons st rest)
  let ?m1 = "exec_step P R st m"
  from Cons.prems(2)
  have n1: "S \<notin> set (new_session_ids (emitted (server m) (server ?m1)))"
    and n2: "S \<notin> set (new_session_ids (emitted (server ?m1) (server (exec P R rest ?m1))))"
    by (simp_all only: emitted_exec_Cons new_session_ids_append set_append Un_iff not_False_eq_True
        de_Morgan_disj simp_thms)
  from Cons.prems(1) n1 have ab1: "S \<notin> fst ` set (sessions (server ?m1)) \<union> fst ` set (inserts ?m1)"
    by (rule step_absent)
  from Cons.prems(1) have "S \<notin> fst ` set (sessions (server m))" by simp
  then have p1: "length (process_events S (emitted (server m) (server ?m1)))
           + turns_on S ?m1 \<le> turns_on S m"
    by (rule step_process)
  from Cons.IH [OF ab1 n2]
  have k: "S \<notin> fst ` set (sessions (server (exec P R rest ?m1)))
             \<union> fst ` set (inserts (exec P R rest ?m1))"
    and p2: "length (process_events S (emitted (server ?m1) (server (exec P R rest ?m1))))
           + turns_on S (exec P R rest ?m1) \<le> turns_on S ?m1"
    by simp_all
  have "length (process_events S (emitted (server m) (server (exec P R (st # rest) m)))) =
      length (process_events S (emitted (server m) (server ?m1)))
        + length (process_events S (emitted (server ?m1) (server (exec P R rest ?m1))))"
    by (simp only: emitted_exec_Cons process_events_append length_append)
  with p1 p2 have "length (process_events S (emitted (server m) (server (exec P R (st # rest) m))))
           + turns_on S (exec P R (st # rest) m) \<le> turns_on S m"
    by simp
  with k show ?case by simp
qed


section \<open>Identifiers are handed out in increasing order\<close>

text \<open>
  Claim C6, with the range of the allocator made explicit. Over a schedule in which
  the 64-bit allocator does not wrap around, every \<open>addSession\<close> call constructs its
  session with an identifier strictly greater than the identifiers of all earlier
  calls of the schedule and not below the value the allocator started from; so no
  identifier is given to two sessions, and every call hands out one. This holds
  however the steps of the threads are interleaved.
\<close>

theorem addSession_ids_increase:
  assumes "no_wrap sched (server m)"
  shows "sorted_wrt (<) (new_session_ids (emitted (server m) (server (exec process reply sched m)))) \<and>
         distinct (new_session_ids (emitted (server m) (server (exec process reply sched m)))) \<and>
         (\<forall>k \<in> set (new_session_ids (emitted (server m) (server (exec process reply sched m)))).
            session_id_allocator (server m) \<le> k) \<and>
         length (new_session_ids (emitted (server m) (server (exec process reply sched m))))
           = length (filter is_AddSessionBegin sched)"
proof -
  let ?ids = "new_session_ids (emitted (server m) (server (exec process reply sched m)))"
  from assms
  have nw: "unat (session_id_allocator (server m))
      + length (filter is_AddSessionBegin sched) \<le> 2 ^ 64"
    by (simp add: no_wrap_def)
  have s: "sorted_wrt (<) ?ids"
    by (simp only: emitted_exec_new_session_ids consecutive_sorted [OF nw])
  then have d: "distinct ?ids" by (simp add: strict_sorted_iff)
  have l: "\<forall>k \<in> set ?ids. session_id_allocator (server m) \<le> k"
    using consecutive_lower [OF nw] by (simp only: emitted_exec_new_session_ids) blast
  have n: "length ?ids = length (filter is_AddSessionBegin sched)"
    by (simp only: emitted_exec_new_session_ids) simp
  from s d l n show ?thesis by blast
qed

lemmas run_simps =
  idle_machine_def demo_server_def wrapping_server_def GreetingSession_new_def
  connect_process_def idle_reply_def
  decode_event_def decode_session_id_def GRPC_EVENT_MASK_def GRPC_EVENT_BIT_LENGTH_def
  GrpcEvent_defs drop_bit_eq_div
  dispatch_lookup_def dispatch_finish_def addSession_begin_def addSession_insert_def
  getSession_eq removeSession_eq locked_process_def record_calls_def sweep_eq
  stop_clear_eq stop_cancel_eq stop_shutdown_eq
  detach_turns_def detach_def emitted_def Let_def

theorem addSession_ids_increase_witness:
  "no_wrap [AddSessionBegin True, AddSessionInsert 0, CallLookup 5 True, CallFinish,
            AddSessionBegin False, AddSessionBegin True, AddSessionInsert 0]
     (server (idle_machine demo_server)) \<and>
   new_session_ids (emitted (server (idle_machine demo_server))
     (server (exec connect_process idle_reply
        [AddSessionBegin True, AddSessionInsert 0, CallLookup 5 True, CallFinish,
         AddSessionBegin False, AddSessionBegin True, AddSessionInsert 0]
        (idle_machine demo_server))))
     = [3, 4, 5] \<and>
   map fst (sessions (server
     (exec connect_process idle_reply
        [AddSessionBegin True, AddSessionInsert 0, CallLookup 5 True, CallFinish,
         AddSessionBegin False, AddSessionBegin True, AddSessionInsert 0]
        (idle_machine demo_server))))
     = [0, 1, 2, 3, 5]"
  using addSession_ids_increase [of
      "[AddSessionBegin True, AddSessionInsert 0, CallLookup 5 True, CallFinish,
        AddSessionBegin False, AddSessionBegin True, AddSessionInsert 0]"
      "idle_machine demo_server" connect_process idle_reply]
  by (simp add: no_wrap_def run_simps)

text \<open>
  At the last \<open>uint64_t\<close> the post-increment wraps around: the next session gets the
  identifier 0, which is smaller than the one before it.
\<close>

theorem addSession_ids_wrap_counterexample:
  "new_session_ids (emitted (server (idle_machine wrapping_server))
     (server (exec connect_process idle_reply [AddSessionBegin True, AddSessionBegin True]
        (idle_machine wrapping_server))))
     = [0xFFFFFFFFFFFFFFFF, 0] \<and>
   \<not> sorted_wrt (<) (new_session_ids (emitted (server (idle_machine wrapping_server))
     (server (exec connect_process idle_reply [AddSessionBegin True, AddSessionBegin True]
        (idle_machine wrapping_server)))))"
  by (simp add: run_simps)

section \<open>A removed session stays removed\<close>

lemma lookup_slot_None:
  assumes "decode_event t = GRPC_EVENT_FINISHED \<or> map_of (sessions srv) (decode_session_id t) = None"
  shows "fst (dispatch_lookup (t, ok) srv) = None"
  using assms by (auto simp add: dispatch_lookup_def getSession_eq Let_def)

lemma lookup_ends_absent:
  assumes "lookup_ends_for S srv t ok"
  shows "S \<notin> fst ` set (sessions (snd (dispatch_lookup (t, ok) srv)))
         \<and> fst (dispatch_lookup (t, ok) srv) = None"
proof -
  from assms have S: "decode_session_id t = S"
    and c: "decode_event t = GRPC_EVENT_FINISHED \<or> (\<not> ok \<and> map_of (sessions srv) S = None)"
    by (simp_all add: lookup_ends_for_def)
  from S c have "fst (dispatch_lookup (t, ok) srv) = None"
    by (intro lookup_slot_None) auto
  moreover have "S \<notin> fst ` set (sessions (snd (dispatch_lookup (t, ok) srv)))"
    using S c by (auto simp add: lookup_sessions map_of_None_keys [symmetric] delete_conv')
  ultimately show ?thesis by simp
qed

lemma finish_ends_absent:
  assumes "finish_ends_for S (Some p)"
  shows "S \<notin> fst ` set (sessions (dispatch_finish P p srv))"
  using assms
  by (simp add: finish_ends_for_def dispatch_finish_def removeSession_eq record_calls_def
      delete_notin_dom)

lemma ends_turn_effect:
  assumes "ends_turn_for S m0 st"
  shows "S \<notin> fst ` set (sessions (server (exec_step P R st m0))) \<and>
         inserts (exec_step P R st m0) = inserts m0 \<and>
         turns_on S (exec_step P R st m0) \<le> 1"
proof (cases st)
  case (CallLookup t ok)
  with assms have n: "call_turn m0 = None" and e: "lookup_ends_for S (server m0) t ok"
    by simp_all
  from lookup_ends_absent [OF e] n CallLookup show ?thesis
    using holds_le_1 [of S "notification_turn m0"]
    by (simp add: case_prod_beta Let_def turns_on_def holds_None)
next
  case CallFinish
  with assms obtain p where p: "call_turn m0 = Some p" and e: "finish_ends_for S (Some p)"
    by (cases "call_turn m0") (simp_all add: finish_ends_for_def)
  from finish_ends_absent [OF e, of P "server m0"] p CallFinish show ?thesis
    using holds_le_1 [of S "notification_turn m0"]
    by (simp add: Let_def turns_on_def holds_None)
next
  case (NotificationLookup t ok)
  with assms have n: "notification_turn m0 = None" and e: "lookup_ends_for S (server m0) t ok"
    by simp_all
  from lookup_ends_absent [OF e] n NotificationLookup show ?thesis
    using holds_le_1 [of S "call_turn m0"]
    by (simp add: case_prod_beta Let_def turns_on_def holds_None)
next
  case NotificationFinish
  with assms obtain p where p: "notification_turn m0 = Some p"
    and e: "finish_ends_for S (Some p)"
    by (cases "notification_turn m0") (simp_all add: finish_ends_for_def)
  from finish_ends_absent [OF e, of P "server m0"] p NotificationFinish show ?thesis
    using holds_le_1 [of S "call_turn m0"]
    by (simp add: Let_def turns_on_def holds_None)
qed (use assms in simp_all)

text \<open>
  Claim C5, with the two ways back into the registry and the turn in flight made
  explicit. Let a dispatch loop end the handling of a FINISHED event or of a not-ok
  completion for session \<open>S\<close>, at a moment when no \<open>addSession\<close> call has still to
  insert \<open>S\<close>'s identifier. Over every schedule that follows in which the identifier
  is not handed out again, a lookup of \<open>S\<close> returns absent; and \<open>process\<close> is called
  on \<open>S\<close> at most as often as a dispatch loop was in the middle of a turn on \<open>S\<close>
  when the handling ended, which is at most once (the other loop, having looked \<open>S\<close>
  up before the removal). A turn that starts afterwards does not call \<open>process\<close> on
  \<open>S\<close>.
\<close>

theorem removed_session_stays_absent:
  assumes "ends_turn_for S m0 st"
    and "m = exec_step process reply st m0"
    and "S \<notin> fst ` set (inserts m0)"
    and "S \<notin> set (new_session_ids (emitted (server m) (server (exec process reply sched m))))"
  shows "fst (getSession S (server (exec process reply sched m))) = None \<and>
         length (process_events S (emitted (server m) (server (exec process reply sched m))))
           \<le> turns_on S m \<and>
         turns_on S m \<le> 1"
proof -
  from ends_turn_effect [OF assms(1), of process reply] assms(2,3)
  have ab: "S \<notin> fst ` set (sessions (server m)) \<union> fst ` set (inserts m)"
    and t1: "turns_on S m \<le> 1"
    by simp_all
  from exec_absent [OF ab assms(4)]
  have "S \<notin> fst ` set (sessions (server (exec process reply sched m)))"
    and "length (process_events S (emitted (server m) (server (exec process reply sched m))))
           \<le> turns_on S m"
    by simp_all
  with t1 show ?thesis by (simp add: getSession_eq map_of_None_keys)
qed

theorem removed_session_stays_absent_witness:
  "ends_turn_for 1
     (exec connect_process idle_reply [CallLookup 5 True] (idle_machine demo_server))
     (NotificationLookup 7 True) \<and>
   fst (getSession 1 (server
     (exec connect_process idle_reply
        [CallLookup 5 True, NotificationLookup 7 True,
         AddSessionBegin True, AddSessionInsert 0, CallFinish, CallLookup 5 True, CallFinish,
         PublishTest, PublishSweep]
        (idle_machine demo_server)))) = None \<and>
   process_events 1 (emitted
     (server (exec connect_process idle_reply [CallLookup 5 True, NotificationLookup 7 True]
        (idle_machine demo_server)))
     (server (exec connect_process idle_reply
        [CallLookup 5 True, NotificationLookup 7 True,
         AddSessionBegin True, AddSessionInsert 0, CallFinish, CallLookup 5 True, CallFinish,
         PublishTest, PublishSweep]
        (idle_machine demo_server)))) = [GRPC_EVENT_READ_DONE] \<and>
   turns_on 1 (exec connect_process idle_reply [CallLookup 5 True, NotificationLookup 7 True]
        (idle_machine demo_server)) = 1"
  using removed_session_stays_absent [of 1
      "exec connect_process idle_reply [CallLookup 5 True] (idle_machine demo_server)"
      "NotificationLookup 7 True"
      "exec connect_process idle_reply [CallLookup 5 True, NotificationLookup 7 True]
         (idle_machine demo_server)"
      connect_process idle_reply
      "[AddSessionBegin True, AddSessionInsert 0, CallFinish, CallLookup 5 True, CallFinish,
        PublishTest, PublishSweep]"]
  by (simp add: run_simps lookup_ends_for_def turns_on_def holds_def)

text \<open>
  Three runs in which the session comes back or is processed after its removal. The
  call loop has looked session 1 up when the notification loop handles its FINISHED
  event, and then calls \<open>process\<close> on it. The FINISHED event of session 3 is handled
  between the \<open>init\<close> and the insert of its \<open>addSession\<close>, and the insert puts it
  into the registry. And once the allocator has wrapped around, \<open>addSession\<close> hands
  the identifier 0 out again.
\<close>

theorem removed_session_returns_counterexample:
  "fst (getSession 1 (server
     (exec connect_process idle_reply [CallLookup 5 True, NotificationLookup 7 True]
        (idle_machine demo_server)))) = None \<and>
   process_events 1 (emitted
     (server (exec connect_process idle_reply [CallLookup 5 True, NotificationLookup 7 True]
        (idle_machine demo_server)))
     (server (exec connect_process idle_reply
        [CallLookup 5 True, NotificationLookup 7 True, CallFinish]
        (idle_machine demo_server)))) = [GRPC_EVENT_READ_DONE] \<and>
   fst (getSession 3 (server
     (exec connect_process idle_reply [AddSessionBegin True, NotificationLookup 15 True]
        (idle_machine demo_server)))) = None \<and>
   fst (getSession 3 (server
     (exec connect_process idle_reply
        [AddSessionBegin True, NotificationLookup 15 True, AddSessionInsert 0]
        (idle_machine demo_server)))) = Some (GreetingSession_new 3) \<and>
   fst (getSession 0 (server
     (exec connect_process idle_reply [CallLookup 3 True]
        (idle_machine wrapping_server)))) = None \<and>
   fst (getSession 0 (server
     (exec connect_process idle_reply
        [CallLookup 3 True, AddSessionBegin True, AddSessionInsert 0,
         AddSessionBegin True, AddSessionInsert 0]
        (idle_machine wrapping_server)))) = Some (GreetingSession_new 0)"
  by (simp add: run_simps)

section \<open>A failed initialisation skips an identifier\<close>

lemma failed_begins:
  "inserts (exec P R (replicate n (AddSessionBegin False)) m) = inserts m \<and>
   sessions (server (exec P R (replicate n (AddSessionBegin False)) m)) = sessions (server m)"
  by (induction n arbitrary: m) (simp_all add: begin_server begin_result case_prod_beta)

lemma begin_insert_registers:
  assumes "inserts m = []"
  shows "session_id_allocator (server m)
      \<in> fst ` set (sessions (server (exec P R [AddSessionBegin True, AddSessionInsert 0] m)))"
  using assms
  by (simp add: begin_server begin_result case_prod_beta insert_server dom_update)

lemma wrap_reaches:
  assumes "inserts m = []"
  shows "session_id_allocator (server m) + word_of_nat n
           \<in> set (new_session_ids (emitted (server m)
                 (server (exec P R (replicate n (AddSessionBegin False)
                                     @ [AddSessionBegin True, AddSessionInsert 0]) m)))) \<and>
         session_id_allocator (server m) + word_of_nat n
           \<in> fst ` set (sessions
                 (server (exec P R (replicate n (AddSessionBegin False)
                                     @ [AddSessionBegin True, AddSessionInsert 0]) m)))"
proof -
  let ?fails = "replicate n (AddSessionBegin False)"
  let ?sched = "?fails @ [AddSessionBegin True, AddSessionInsert 0]"
  let ?a = "session_id_allocator (server m)"
  let ?m2 = "exec P R ?fails m"
  have "length (filter is_AddSessionBegin ?sched) = Suc n" by simp
  then have "new_session_ids (emitted (server m) (server (exec P R ?sched m)))
      = map (\<lambda>i. ?a + word_of_nat i) [0..<Suc n]"
    by (simp only: emitted_exec_new_session_ids)
  moreover have "n \<in> set [0..<Suc n]" by simp
  ultimately have 1: "?a + word_of_nat n
      \<in> set (new_session_ids (emitted (server m) (server (exec P R ?sched m))))"
    by (simp only: set_map) (rule imageI)
  have "length (filter is_AddSessionBegin ?fails) = n" by simp
  with exec_new_session_ids [of P R ?fails m]
  have a2: "session_id_allocator (server ?m2) = ?a + word_of_nat n" by (simp only:)
  have i2: "inserts ?m2 = []" using failed_begins [of P R n m] assms by simp
  have "session_id_allocator (server ?m2)
      \<in> fst ` set (sessions (server (exec P R [AddSessionBegin True, AddSessionInsert 0] ?m2)))"
    using i2 by (rule begin_insert_registers)
  with a2 have 2: "?a + word_of_nat n \<in> fst ` set (sessions (server (exec P R ?sched m)))"
    by (simp only: exec_append)
  from 1 2 show ?thesis ..
qed

lemma begin_is_addSession:
  "server (exec_step P R (AddSessionBegin False) m) = snd (addSession False (server m))
   \<and> inserts (exec_step P R (AddSessionBegin False) m) = inserts m"
  by (simp add: addSession_halves begin_server begin_result case_prod_beta)

text \<open>
  Claim C9, with the range of the allocator made explicit. If the initialisation of
  the new session fails, \<open>addSession\<close> returns null and leaves the registry as it was,
  but it has advanced the allocator. Over every schedule that follows with fewer than
  \<open>2 ^ 64\<close> calls of \<open>addSession\<close>, no session is constructed with the skipped
  identifier; and the identifier does not enter the registry, unless an earlier
  wrap-around has left it there or with a caller that has still to insert it.
\<close>

theorem addSession_init_failure:
  "fst (addSession False srv) = None \<and>
   sessions (snd (addSession False srv)) = sessions srv \<and>
   session_id_allocator (snd (addSession False srv)) = session_id_allocator srv + 1 \<and>
   (server m = snd (addSession False srv) \<and>
    length (filter is_AddSessionBegin sched) < 2 ^ 64 \<longrightarrow>
      session_id_allocator srv
        \<notin> set (new_session_ids (emitted (server m) (server (exec process reply sched m)))) \<and>
      (session_id_allocator srv \<notin> fst ` set (sessions srv) \<union> fst ` set (inserts m) \<longrightarrow>
         session_id_allocator srv
           \<notin> fst ` set (sessions (server (exec process reply sched m)))
               \<union> fst ` set (inserts (exec process reply sched m))))"
proof -
  let ?a = "session_id_allocator srv"
  let ?srv1 = "snd (addSession False srv)"
  let ?n = "length (filter is_AddSessionBegin sched)"
  let ?ids = "new_session_ids (emitted (server m) (server (exec process reply sched m)))"
  have 1: "fst (addSession False srv) = None"
    by (simp add: addSession_def Let_def)
  have 2: "sessions ?srv1 = sessions srv" and 3: "session_id_allocator ?srv1 = ?a + 1"
    by (simp_all add: addSession_eq)
  have 4: "?a \<notin> set ?ids" if m: "server m = ?srv1" and n: "?n < 2 ^ 64"
  proof
    assume "?a \<in> set ?ids"
    moreover have "?ids = map (\<lambda>i. session_id_allocator (server m) + word_of_nat i) [0..<?n]"
      by (rule emitted_exec_new_session_ids)
    moreover have "session_id_allocator (server m) = ?a + 1" by (simp add: m 3)
    ultimately have "?a \<in> set (map (\<lambda>i. ?a + 1 + word_of_nat i) [0..<?n])"
      by simp
    then obtain i where i: "i < ?n" and eq: "?a = ?a + 1 + word_of_nat i" by auto
    from eq have "(word_of_nat (Suc i) :: 64 word) = 0" by (simp add: add.assoc)
    then have "unat (word_of_nat (Suc i) :: 64 word) = 0" by simp
    moreover from i n have "Suc i < 2 ^ 64" by simp
    then have "unat (word_of_nat (Suc i) :: 64 word) = Suc i"
      by (simp only: unat_of_nat) simp
    ultimately show False by simp
  qed
  have 5: "?a \<notin> fst ` set (sessions (server (exec process reply sched m)))
               \<union> fst ` set (inserts (exec process reply sched m))"
    if m: "server m = ?srv1" and n: "?n < 2 ^ 64"
      and ab: "?a \<notin> fst ` set (sessions srv) \<union> fst ` set (inserts m)"
  proof -
    from ab m have "?a \<notin> fst ` set (sessions (server m)) \<union> fst ` set (inserts m)"
      by (simp add: 2)
    from exec_absent [OF this 4 [OF m n]] show ?thesis by simp
  qed
  from 1 2 3 4 5 show ?thesis by blast
qed

theorem addSession_init_failure_witness:
  "server (exec_step connect_process idle_reply (AddSessionBegin False) (idle_machine demo_server))
     = snd (addSession False demo_server) \<and>
   fst (addSession False demo_server) = None \<and>
   sessions (snd (addSession False demo_server)) = sessions demo_server \<and>
   session_id_allocator (snd (addSession False demo_server)) = 4 \<and>
   calls (snd (addSession False demo_server)) = [NewSession 3] \<and>
   map fst (sessions (server (exec connect_process idle_reply
        [AddSessionBegin True, AddSessionBegin True, AddSessionInsert 1, AddSessionInsert 0]
        (exec_step connect_process idle_reply (AddSessionBegin False)
           (idle_machine demo_server))))) = [0, 1, 2, 5, 4]"
  using addSession_init_failure [of demo_server
      "exec_step connect_process idle_reply (AddSessionBegin False) (idle_machine demo_server)"
      "[AddSessionBegin True, AddSessionBegin True, AddSessionInsert 1, AddSessionInsert 0]"
      connect_process idle_reply]
  by (simp add: run_simps addSession_eq addSession_def [of False])

text \<open>
  The \<open>2 ^ 64\<close>-th later call finds the allocator back at the skipped identifier: a
  session is constructed with it and put into the registry.
\<close>

theorem skipped_id_returns_counterexample:
  "fst (addSession False demo_server) = None \<and>
   session_id_allocator demo_server = 3 \<and>
   3 \<in> set (new_session_ids (emitted
          (server (exec_step connect_process idle_reply (AddSessionBegin False)
                     (idle_machine demo_server)))
          (server (exec connect_process idle_reply
                     (replicate (2 ^ 64 - 1) (AddSessionBegin False)
                        @ [AddSessionBegin True, AddSessionInsert 0])
                     (exec_step connect_process idle_reply (AddSessionBegin False)
                        (idle_machine demo_server)))))) \<and>
   3 \<in> fst ` set (sessions
          (server (exec connect_process idle_reply
                     (replicate (2 ^ 64 - 1) (AddSessionBegin False)
                        @ [AddSessionBegin True, AddSessionInsert 0])
                     (exec_step connect_process idle_reply (AddSessionBegin False)
                        (idle_machine demo_server)))))"
proof -
  let ?m1 = "exec_step connect_process idle_reply (AddSessionBegin False)
               (idle_machine demo_server)"
  have 1: "fst (addSession False demo_server) = None"
    by (simp add: addSession_def Let_def)
  have 2: "session_id_allocator demo_server = 3"
    by (simp add: demo_server_def)
  have a: "session_id_allocator (server ?m1) = 4"
    by (simp add: begin_server begin_result case_prod_beta idle_machine_def demo_server_def)
  have i: "inserts ?m1 = []"
    by (simp add: begin_server begin_result case_prod_beta idle_machine_def)
  have w: "(4 :: 64 word) + word_of_nat (2 ^ 64 - 1) = 3" by simp
  from wrap_reaches [OF i, of "2 ^ 64 - 1" connect_process idle_reply]
  have "3 \<in> set (new_session_ids (emitted (server ?m1)
              (server (exec connect_process idle_reply
                 (replicate (2 ^ 64 - 1) (AddSessionBegin False)
                    @ [AddSessionBegin True, AddSessionInsert 0]) ?m1)))) \<and>
        3 \<in> fst ` set (sessions
              (server (exec connect_process idle_reply
                 (replicate (2 ^ 64 - 1) (AddSessionBegin False)
                    @ [AddSessionBegin True, AddSessionInsert 0]) ?m1)))"
    by (simp only: a w)
  with 1 2 show ?thesis by (intro conjI) simp_all
qed

section \<open>The broadcast sweep, and the test that starts it\<close>




section \<open>The steps make up the functions, and the registry stays a map\<close>

lemma turn_is_body:
  assumes "call_turn m = None"
  shows "server (exec P R [CallLookup t ok, CallFinish] m)
           = completion_queue_call_body P (t, ok) (server m)
         \<and> call_turn (exec P R [CallLookup t ok, CallFinish] m) = None"
proof (cases "fst (dispatch_lookup (t, ok) (server m))")
  case None
  with assms show ?thesis
    by (simp add: body_halves case_prod_beta Let_def detach_None)
next
  case (Some p)
  with lookup_slot [OF Some] assms show ?thesis
    by (simp add: body_halves case_prod_beta Let_def detach_None)
qed

lemma notification_turn_is_body:
  assumes "notification_turn m = None"
  shows "server (exec P R [NotificationLookup t ok, NotificationFinish] m)
           = completion_queue_notification_body P (t, ok) (server m)
         \<and> notification_turn (exec P R [NotificationLookup t ok, NotificationFinish] m) = None"
proof (cases "fst (dispatch_lookup (t, ok) (server m))")
  case None
  with assms show ?thesis
    by (simp add: notification_body_eq body_halves case_prod_beta Let_def detach_None)
next
  case (Some p)
  with lookup_slot [OF Some] assms show ?thesis
    by (simp add: notification_body_eq body_halves case_prod_beta Let_def detach_None)
qed

lemma call_loop_exec:
  assumes "call_turn m = None"
  shows "completion_queue_call_loop P evs (server m)
     = server (exec P R (concat (map (\<lambda>(t, ok). [CallLookup t ok, CallFinish]) evs)) m)"
  using assms
proof (induction evs arbitrary: m)
  case Nil
  then show ?case by simp
next
  case (Cons ev evs)
  obtain t ok where ev: "ev = (t, ok)" by (cases ev)
  let ?m1 = "exec P R [CallLookup t ok, CallFinish] m"
  from turn_is_body [OF Cons.prems, of P R t ok]
  have s: "server ?m1 = completion_queue_call_body P (t, ok) (server m)"
    and n: "call_turn ?m1 = None" by simp_all
  from Cons.IH [OF n] s ev show ?case
    by (simp only: completion_queue_call_loop.simps list.map concat.simps case_prod_conv
        exec_append)
qed

lemma notification_loop_exec:
  assumes "notification_turn m = None"
  shows "thread_completion_queue_notification P evs (server m)
     = server (exec P R
         (concat (map (\<lambda>(t, ok). [NotificationLookup t ok, NotificationFinish]) evs)) m)"
  using assms
proof (induction evs arbitrary: m)
  case Nil
  then show ?case by simp
next
  case (Cons ev evs)
  obtain t ok where ev: "ev = (t, ok)" by (cases ev)
  let ?m1 = "exec P R [NotificationLookup t ok, NotificationFinish] m"
  from notification_turn_is_body [OF Cons.prems, of P R t ok]
  have s: "server ?m1 = completion_queue_notification_body P (t, ok) (server m)"
    and n: "notification_turn ?m1 = None" by simp_all
  from Cons.IH [OF n] s ev show ?case
    by (simp only: thread_completion_queue_notification.simps list.map concat.simps
        case_prod_conv exec_append)
qed

lemma addSession_is_steps:
  assumes "inserts m = []"
  shows "server (exec P R [AddSessionBegin b, AddSessionInsert 0] m)
           = snd (addSession b (server m))"
  using assms
  by (cases b) (simp_all add: addSession_halves begin_server begin_result case_prod_beta)

lemma stop_is_steps:
  assumes "stop_at m = NotStopping"
  shows "server (exec P R [StopClear, StopCancel, StopShutdown] m) = stop (server m)"
  using assms by (simp add: stop_pieces)

lemma thread_call_exec:
  assumes "call_turn m = None" and "inserts m = []"
  shows "thread_completion_queue_call P init_ok evs (server m)
     = server (exec P R
         ([AddSessionBegin init_ok, AddSessionInsert 0]
            @ concat (map (\<lambda>(t, ok). [CallLookup t ok, CallFinish]) evs)) m)"
proof -
  let ?m1 = "exec P R [AddSessionBegin init_ok, AddSessionInsert 0] m"
  have s: "server ?m1 = snd (addSession init_ok (server m))"
    using assms(2) by (rule addSession_is_steps)
  have "call_turn ?m1 = None"
    using assms by (cases init_ok) (simp_all add: begin_result case_prod_beta detach_None)
  from call_loop_exec [OF this, of P evs R] s show ?thesis
    by (simp only: thread_completion_queue_call_def exec_append)
qed

text \<open>No step of a schedule gives the registry two entries for one identifier.\<close>

lemma finish_wf:
  assumes "sessions_wf srv"
  shows "sessions_wf (dispatch_finish P p srv)"
proof -
  have "distinct (map fst (sessions (dispatch_finish P p srv)))"
    using assms by (simp only: finish_keys sessions_wf_def) (simp add: distinct_removeAll)
  then show ?thesis by (simp add: sessions_wf_def)
qed

lemma exec_step_wf:
  assumes "sessions_wf (server m)"
  shows "sessions_wf (server (exec_step P R st m))"
proof (cases st)
  case (CallLookup t ok)
  with assms show ?thesis
    by (auto simp add: sessions_wf_def case_prod_beta Let_def lookup_sessions distinct_delete
        split: option.splits)
next
  case CallFinish
  with assms finish_wf [of "server m" P] show ?thesis
    by (auto simp add: Let_def split: option.splits)
next
  case (NotificationLookup t ok)
  with assms show ?thesis
    by (auto simp add: sessions_wf_def case_prod_beta Let_def lookup_sessions distinct_delete
        split: option.splits)
next
  case NotificationFinish
  with assms finish_wf [of "server m" P] show ?thesis
    by (auto simp add: Let_def split: option.splits)
next
  case (AddSessionBegin b)
  with assms show ?thesis
    by (auto simp add: sessions_wf_def begin_server case_prod_beta split: option.splits)
next
  case (AddSessionInsert n)
  with assms show ?thesis
    by (simp add: sessions_wf_def insert_server distinct_update)
next
  case (RemoveSession sid)
  with assms show ?thesis
    by (simp add: sessions_wf_def removeSession_eq record_calls_def distinct_delete)
next
  case PublishSweep
  with assms show ?thesis by (simp add: sessions_wf_def sweep_eq keys_reply)
qed (use assms in \<open>simp_all add: sessions_wf_def stop_clear_eq stop_cancel_eq stop_shutdown_eq\<close>)

lemma exec_wf: "sessions_wf (server m) \<Longrightarrow> sessions_wf (server (exec P R sched m))"
  by (induction sched arbitrary: m) (auto simp: exec_step_wf)

end
